theory Spec2Isabelle
  imports Main "HOL-Library.Word" "HOL-Library.Multiset"
begin

unbundle bit_operations_syntax

section \<open>Data model\<close>

text \<open>
  A node of a ranked tree is a \<open>uint64_t\<close> whose set bits are the node's descendant
  leaves. A tree with \<open>n\<close> leaves is an array of \<open>n - 1\<close> such masks, indexed by
  rank. Arrays are lists; a read outside the array (undefined behaviour in C) is the
  error \<open>OutOfBounds\<close>. The two \<open>errx\<close> calls and the \<open>assert\<close> are errors as well.
  \<open>malloc\<close> is taken to succeed.
\<close>

type_synonym u64 = "64 word"

datatype error =
    AssertFailed
  | NoAncestorInV
  | NoAncestorInU
  | OutOfBounds

text \<open>\<open>size_t\<close> subtraction, 64 bits wide: \<open>n - 2\<close> wraps around for \<open>n < 2\<close>.\<close>

definition size_sub :: "nat \<Rightarrow> nat \<Rightarrow> nat" where
  "size_sub a b = (if b \<le> a then a - b else 2 ^ 64 + a - b)"

text \<open>\<open>__builtin_popcountll\<close>: the number of bits set.\<close>

definition popcount64 :: "u64 \<Rightarrow> nat" where
  "popcount64 x = length (filter (bit x) [0..<64])"

section \<open>rank\<close>

text \<open>
  The loop \<open>for (i=0; i<=n-2; i++)\<close> of \<open>rank\<close>, entered at \<open>i\<close> with the bound
  \<open>m = n - 2\<close>. Falling out of the loop is \<open>errx(1, "x has no ancestor in v")\<close>.
  The index leaves the array before \<open>i++\<close> could wrap around.
\<close>

function rank_loop :: "nat \<Rightarrow> u64 list \<Rightarrow> u64 \<Rightarrow> nat \<Rightarrow> error + nat" where
  "rank_loop m v x i =
     (if i \<le> m then
        (if i < length v then
           (if v ! i AND x = x then Inr i else rank_loop m v x (Suc i))
         else Inl OutOfBounds)
      else Inl NoAncestorInV)"
  by pat_completeness auto
termination
  by (relation "measure (\<lambda>(m, v, x, i). Suc m - i)") auto

declare rank_loop.simps [simp del]

definition rank :: "nat \<Rightarrow> u64 list \<Rightarrow> u64 \<Rightarrow> error + nat" where
  "rank n v x = rank_loop (size_sub n 2) v x 0"

section \<open>t64_rnni_distance\<close>

text \<open>
  The loop \<open>for (j=r-1; j<=r-1; j--)\<close> that looks for a child of \<open>u\<close>, entered at
  \<open>j\<close>. It stops at the first \<open>j\<close> with \<open>(u & T1[j]) == T1[j]\<close> and gives that
  \<open>j\<close> and \<open>x = T1[j]\<close>; \<open>j--\<close> at \<open>0\<close> wraps around, which leaves the loop with
  \<open>j > r-1\<close>, the \<open>errx(1, "x has no ancestor in u")\<close>.
\<close>

fun descend :: "u64 list \<Rightarrow> u64 \<Rightarrow> nat \<Rightarrow> error + (nat \<times> u64)" where
  "descend T1 u 0 =
     (if u AND T1 ! 0 = T1 ! 0 then Inr (0, T1 ! 0) else Inl NoAncestorInU)"
| "descend T1 u (Suc j) =
     (if u AND T1 ! Suc j = T1 ! Suc j then Inr (Suc j, T1 ! Suc j)
      else descend T1 u j)"

text \<open>The choice of \<open>x\<close> (lines 67 to 84), with the rank it was read from, if any.\<close>

definition find_x :: "u64 list \<Rightarrow> nat \<Rightarrow> error + (nat option \<times> u64)" where
  "find_x T1 r =
     (let u = T1 ! (r - 1) in
      if popcount64 u = 2 then Inr (None, u AND - u)
      else (case descend T1 u (r - 1) of
              Inl e \<Rightarrow> Inl e
            | Inr (j, x) \<Rightarrow> Inr (Some j, x)))"

text \<open>
  One pass through the body of \<open>while (r > i)\<close>, without the two counters: the working
  copy after the move. \<open>Ri\<close> is \<open>R[i]\<close>.
\<close>

definition move :: "u64 \<Rightarrow> u64 list \<Rightarrow> nat \<Rightarrow> error + u64 list" where
  "move Ri T1 r =
     (let v = T1 ! r; u = T1 ! (r - 1) in
      if v AND u \<noteq> 0 then
        (case find_x T1 r of
           Inl e \<Rightarrow> Inl e
         | Inr (_, x) \<Rightarrow>
             (let y = u - x; w = v - u in
              if Ri AND (x + w) = x + w then Inr (T1[r - 1 := x + w])
              else Inr (T1[r - 1 := y + w])))
      else Inr (T1[r := u, r - 1 := v]))"

text \<open>The loop \<open>while (r > i)\<close>: the working copy and the counter \<open>d\<close> at its end.\<close>

function while_loop ::
  "u64 \<Rightarrow> nat \<Rightarrow> u64 list \<Rightarrow> nat \<Rightarrow> u64 \<Rightarrow> error + (u64 list \<times> u64)" where
  "while_loop Ri i T1 r d =
     (if r > i then
        (case move Ri T1 r of
           Inl e \<Rightarrow> Inl e
         | Inr T1' \<Rightarrow> while_loop Ri i T1' (r - 1) (d + 1))
      else Inr (T1, d))"
  by pat_completeness auto
termination
  by (relation "measure (\<lambda>(Ri, i, T1, r, d). r)") auto

declare while_loop.simps [simp del]

text \<open>
  The loop \<open>for (i=n-2; i<n-1; i--)\<close>, entered at \<open>i\<close>; \<open>i--\<close> at \<open>0\<close> wraps
  around and ends it.
\<close>

fun for_loop :: "nat \<Rightarrow> u64 list \<Rightarrow> u64 list \<Rightarrow> u64 \<Rightarrow> nat \<Rightarrow> error + (u64 list \<times> u64)" where
  "for_loop n R T1 d i =
     (case rank n T1 (R ! i) of
        Inl e \<Rightarrow> Inl e
      | Inr r \<Rightarrow>
          (case while_loop (R ! i) i T1 r d of
             Inl e \<Rightarrow> Inl e
           | Inr (T1', d') \<Rightarrow>
               (case i of 0 \<Rightarrow> Inr (T1', d') | Suc k \<Rightarrow> for_loop n R T1' d' k)))"

declare for_loop.simps [simp del]

definition t64_rnni_distance :: "nat \<Rightarrow> u64 list \<Rightarrow> u64 list \<Rightarrow> error + u64" where
  "t64_rnni_distance n T R =
     (if \<not> (1 < n \<and> n \<le> 64) then Inl AssertFailed
      else if length T < n - 1 \<or> length R < n - 1 then Inl OutOfBounds
      else (case for_loop n R (take (n - 1) T) 0 (n - 2) of
              Inl e \<Rightarrow> Inl e
            | Inr (_, d) \<Rightarrow> Inr d))"

section \<open>t64_random\<close>

text \<open>
  \<open>pcg32_boundedrand_r\<close> belongs to the PCG library, not to this program: it is the
  parameter \<open>br\<close>, a function from the generator's state and a bound to the number drawn
  and the next state. The loop \<open>for (j=n, i=0; i<n-1; i++)\<close>, entered at \<open>i\<close> with
  the scratch array \<open>u\<close> and the output array \<open>v\<close>.
\<close>

function random_loop ::
  "('g \<Rightarrow> nat \<Rightarrow> nat \<times> 'g) \<Rightarrow> nat \<Rightarrow> 'g \<Rightarrow> u64 list \<Rightarrow> u64 list \<Rightarrow> nat \<Rightarrow> nat
     \<Rightarrow> error + (u64 list \<times> 'g)" where
  "random_loop br n rng u v j i =
     (if i < n - 1 then
        (let (a, rng1) = br rng j;
             j' = size_sub j 1;
             (b, rng2) = br rng1 j'
         in if a < length u \<and> j' < length u \<and> b < length u \<and> i < length v then
              (let vi = u ! a;
                   u1 = u[a := u ! j'];
                   vi' = vi OR u1 ! b;
                   u2 = u1[b := vi']
               in random_loop br n rng2 u2 (v[i := vi']) j' (Suc i))
            else Inl OutOfBounds)
      else Inr (v, rng))"
  by pat_completeness auto
termination
  by (relation "measure (\<lambda>(br, n, rng, u, v, j, i). n - 1 - i)") auto

declare random_loop.simps [simp del]

definition t64_random ::
  "('g \<Rightarrow> nat \<Rightarrow> nat \<times> 'g) \<Rightarrow> 'g \<Rightarrow> nat \<Rightarrow> u64 list \<Rightarrow> error + (u64 list \<times> 'g)" where
  "t64_random br rng n v =
     (if \<not> (1 < n \<and> n \<le> 64) then Inl AssertFailed
      else random_loop br n rng (map (\<lambda>i. push_bit i 1) [0..<n]) v n 0)"

section \<open>Well-formed ranked trees\<close>

text \<open>
  The four invariants of a ranked tree with \<open>n\<close> leaves, as the specification lists them:
  the entry at rank \<open>n - 2\<close> has the \<open>n\<close> low bits set; every entry is the union of two
  disjoint masks, each a leaf or an entry of lower rank; no entry is a leaf; no two ranks
  carry the same mask.
\<close>

definition leaves :: "nat \<Rightarrow> u64 list" where
  "leaves n = map (\<lambda>i. push_bit i 1) [0..<n]"

definition two_children :: "nat \<Rightarrow> u64 list \<Rightarrow> nat \<Rightarrow> bool" where
  "two_children n T r \<longleftrightarrow>
     (\<exists>a \<in> set (leaves n @ take r T). \<exists>b \<in> set (leaves n @ take r T).
        a AND b = 0 \<and> a OR b = T ! r)"

definition wf_tree :: "nat \<Rightarrow> u64 list \<Rightarrow> bool" where
  "wf_tree n T \<longleftrightarrow>
     1 < n \<and> n \<le> 64 \<and> length T = n - 1 \<and>
     T ! (n - 2) = mask n \<and>
     (\<forall>r \<in> set [0..<n - 1]. two_children n T r) \<and>
     (\<forall>r \<in> set [0..<n - 1]. T ! r \<notin> set (leaves n)) \<and>
     distinct T"

section \<open>Notions used in the proofs\<close>

text \<open>The leaves under a node: the positions of the bits set in its mask.\<close>

definition bits :: "u64 \<Rightarrow> nat set" where
  "bits x = {p. bit x p}"

text \<open>
  The states \<open>(T1, d, i)\<close> in which the loop \<open>for (i=n-2; i<n-1; i--)\<close> of
  \<open>t64_rnni_distance\<close> stands at the head of its body, started from the state \<open>s\<close>.
\<close>

inductive for_reach ::
  "nat \<Rightarrow> u64 list \<Rightarrow> u64 list \<times> u64 \<times> nat \<Rightarrow> u64 list \<times> u64 \<times> nat \<Rightarrow> bool"
  for n :: nat and R :: "u64 list" and s :: "u64 list \<times> u64 \<times> nat" where
  start: "for_reach n R s s"
| step: "for_reach n R s (T1, d, Suc k) \<Longrightarrow> rank n T1 (R ! Suc k) = Inr r \<Longrightarrow>
         while_loop (R ! Suc k) (Suc k) T1 r d = Inr (T1', d') \<Longrightarrow>
         for_reach n R s (T1', d', k)"

text \<open>
  A derivation of a mask from the leaves: \<open>Leaf k\<close> is leaf \<open>k\<close>, \<open>Node r l t\<close> is the
  entry at rank \<open>r\<close> with the children \<open>l\<close> and \<open>t\<close>.
\<close>

datatype dtree = Leaf nat | Node nat dtree dtree

fun dmask :: "u64 list \<Rightarrow> dtree \<Rightarrow> u64" where
  "dmask T (Leaf k) = push_bit k 1"
| "dmask T (Node r l t) = T ! r"

fun lower :: "dtree \<Rightarrow> nat \<Rightarrow> bool" where
  "lower (Leaf k) r = True"
| "lower (Node r' l t) r = (r' < r)"

fun derives :: "nat \<Rightarrow> u64 list \<Rightarrow> dtree \<Rightarrow> bool" where
  "derives n T (Leaf k) = (k < n)"
| "derives n T (Node r l t) =
     (derives n T l \<and> derives n T t \<and> lower l r \<and> lower t r \<and>
      dmask T l AND dmask T t = 0 \<and> dmask T l OR dmask T t = T ! r)"

fun idxs :: "dtree \<Rightarrow> nat set" where
  "idxs (Leaf k) = {}"
| "idxs (Node r l t) = insert r (idxs l \<union> idxs t)"

text \<open>
  What holds of the scratch array \<open>u\<close> and of the output array \<open>v\<close> at the head of
  the loop of \<open>t64_random\<close>, with \<open>j\<close> active entries left and \<open>i\<close> entries
  written: the active entries \<open>u[0..j-1]\<close> are different, not empty and disjoint, and
  together cover the \<open>n\<close> leaves; each is a leaf or an entry written before; every entry
  written lies inside an active entry and the last one written is active; and the entries
  written so far meet the invariants of a ranked tree.
\<close>

definition gen_inv :: "nat \<Rightarrow> u64 list \<Rightarrow> u64 list \<Rightarrow> nat \<Rightarrow> nat \<Rightarrow> bool" where
  "gen_inv n u v j i \<longleftrightarrow>
     j + i = n \<and> 1 \<le> j \<and> 1 < n \<and> n \<le> 64 \<and> length u = n \<and> n - 1 \<le> length v \<and>
     distinct (take j u) \<and> 0 \<notin> set (take j u) \<and>
     (\<forall>x \<in> set (take j u). \<forall>y \<in> set (take j u). x \<noteq> y \<longrightarrow> x AND y = 0) \<and>
     (\<Union>x \<in> set (take j u). bits x) = {..<n} \<and>
     set (take j u) \<subseteq> set (leaves n @ take i v) \<and>
     (\<forall>e \<in> set (take i v). \<exists>x \<in> set (take j u). e AND x = e) \<and>
     (\<forall>r<i. two_children n v r) \<and>
     (\<forall>r<i. v ! r \<notin> set (leaves n)) \<and>
     distinct (take i v) \<and>
     (0 < i \<longrightarrow> v ! (i - 1) \<in> set (take j u))"

text \<open>
  A stand-in for the random number generator in the examples: it draws the state modulo
  the bound and counts the state up.
\<close>

definition cyc :: "nat \<Rightarrow> nat \<Rightarrow> nat \<times> nat" where
  "cyc g b = (g mod b, Suc g)"

section \<open>Facts about rank\<close>

lemma size_sub_simp: "b \<le> a \<Longrightarrow> size_sub a b = a - b"
  by (simp add: size_sub_def)

lemma rank_loop_Inr_D:
  "rank_loop m v x i = Inr k \<Longrightarrow>
     i \<le> k \<and> k \<le> m \<and> k < length v \<and> v ! k AND x = x \<and>
     (\<forall>j. i \<le> j \<and> j < k \<longrightarrow> v ! j AND x \<noteq> x)"
proof (induction m v x i rule: rank_loop.induct)
  case (1 m v x i)
  show ?case
  proof (cases "i \<le> m \<and> i < length v \<and> v ! i AND x \<noteq> x")
    case True
    then have "rank_loop m v x (Suc i) = Inr k"
      using "1.prems" by (simp add: rank_loop.simps [of m v x i])
    with True "1.IH" have IH: "Suc i \<le> k \<and> k \<le> m \<and> k < length v \<and> v ! k AND x = x \<and>
        (\<forall>j. Suc i \<le> j \<and> j < k \<longrightarrow> v ! j AND x \<noteq> x)"
      by simp
    have "v ! j AND x \<noteq> x" if "i \<le> j \<and> j < k" for j
      using that IH True by (cases "j = i") auto
    with IH show ?thesis by auto
  next
    case False
    then show ?thesis
      using "1.prems" by (auto simp: rank_loop.simps [of m v x i] split: if_splits)
  qed
qed

lemma rank_loop_first:
  "i \<le> k \<Longrightarrow> k \<le> m \<Longrightarrow> k < length v \<Longrightarrow> v ! k AND x = x \<Longrightarrow>
   (\<forall>j. i \<le> j \<and> j < k \<longrightarrow> v ! j AND x \<noteq> x) \<Longrightarrow> rank_loop m v x i = Inr k"
proof (induction m v x i rule: rank_loop.induct)
  case (1 m v x i)
  show ?case
  proof (cases "i = k")
    case True
    with "1.prems" show ?thesis by (simp add: rank_loop.simps [of m v x k])
  next
    case False
    with "1.prems" have ne: "v ! i AND x \<noteq> x" and lt: "i < k" by auto
    with "1.prems" have "rank_loop m v x (Suc i) = Inr k"
      by (intro "1.IH") auto
    with ne lt "1.prems" show ?thesis by (simp add: rank_loop.simps [of m v x i])
  qed
qed

lemma rank_loop_none:
  "m < length v \<Longrightarrow> (\<forall>j. i \<le> j \<and> j \<le> m \<longrightarrow> v ! j AND x \<noteq> x) \<Longrightarrow>
   rank_loop m v x i = Inl NoAncestorInV"
proof (induction m v x i rule: rank_loop.induct)
  case (1 m v x i)
  show ?case
  proof (cases "i \<le> m")
    case True
    with "1.prems" have ne: "v ! i AND x \<noteq> x" and lt: "i < length v" by auto
    with True "1.prems" have "rank_loop m v x (Suc i) = Inl NoAncestorInV"
      by (intro "1.IH") auto
    with ne lt True show ?thesis by (simp add: rank_loop.simps [of m v x i])
  next
    case False
    then show ?thesis by (simp add: rank_loop.simps [of m v x i])
  qed
qed

lemma rank_Inr_iff:
  assumes "2 \<le> n" "n - 1 \<le> length v"
  shows "rank n v x = Inr k \<longleftrightarrow>
     k \<le> n - 2 \<and> v ! k AND x = x \<and> (\<forall>j<k. v ! j AND x \<noteq> x)"
proof
  assume "rank n v x = Inr k"
  then show "k \<le> n - 2 \<and> v ! k AND x = x \<and> (\<forall>j<k. v ! j AND x \<noteq> x)"
    using assms rank_loop_Inr_D [of "n - 2" v x 0 k] by (simp add: rank_def size_sub_simp)
next
  assume *: "k \<le> n - 2 \<and> v ! k AND x = x \<and> (\<forall>j<k. v ! j AND x \<noteq> x)"
  moreover from this assms have "k < length v" by linarith
  ultimately show "rank n v x = Inr k"
    using assms rank_loop_first [of 0 k "n - 2" v x] by (simp add: rank_def size_sub_simp)
qed

lemma rank_none:
  assumes "2 \<le> n" "n - 1 \<le> length v" "\<forall>j \<le> n - 2. v ! j AND x \<noteq> x"
  shows "rank n v x = Inl NoAncestorInV"
proof -
  from assms have "n - 2 < length v" by linarith
  then show ?thesis
    using assms rank_loop_none [where m = "n - 2" and v = v and x = x and i = 0]
    by (simp add: rank_def size_sub_simp)
qed

lemma rank_some:
  assumes "2 \<le> n" "n - 1 \<le> length v" "k \<le> n - 2" "v ! k AND x = x"
  shows "\<exists>r \<le> k. rank n v x = Inr r"
proof -
  define r where "r = (LEAST j. v ! j AND x = x)"
  have hit: "v ! r AND x = x"
    unfolding r_def using assms(4) by (rule LeastI)
  have le: "r \<le> k"
    unfolding r_def using assms(4) by (rule Least_le)
  have "v ! j AND x \<noteq> x" if "j < r" for j
    using that not_less_Least unfolding r_def by blast
  with hit le assms have "rank n v x = Inr r"
    by (simp add: rank_Inr_iff)
  with le show ?thesis by blast
qed

section \<open>Facts about one move\<close>

lemma length_move: "move Ri T1 r = Inr T1' \<Longrightarrow> length T1' = length T1"
  by (auto simp: move_def Let_def split: if_splits sum.splits prod.splits)

lemma move_frame:
  "move Ri T1 r = Inr T1' \<Longrightarrow> k \<noteq> r \<Longrightarrow> k \<noteq> r - 1 \<Longrightarrow> T1' ! k = T1 ! k"
  by (auto simp: move_def Let_def split: if_splits sum.splits prod.splits)

lemma move_nested_keeps_v:
  "move Ri T1 r = Inr T1' \<Longrightarrow> 0 < r \<Longrightarrow> T1 ! r AND T1 ! (r - 1) \<noteq> 0 \<Longrightarrow> T1' ! r = T1 ! r"
  by (auto simp: move_def Let_def split: if_splits sum.splits prod.splits)

lemma descend_self: "descend T1 (T1 ! j) j = Inr (j, T1 ! j)"
  by (cases j) simp_all

lemma find_x_total: "\<exists>j x. find_x T1 r = Inr (j, x)"
  by (simp add: find_x_def Let_def descend_self del: One_nat_def)

lemma move_total: "\<exists>T1'. move Ri T1 r = Inr T1'"
  using find_x_total [of T1 r] by (auto simp: move_def Let_def)

section \<open>Facts about the outer loop\<close>

lemma for_loop_rank_error:
  "rank n T1 (R ! i) = Inl e \<Longrightarrow> for_loop n R T1 d i = Inl e"
  by (simp add: for_loop.simps [of n R T1 d i])

lemma for_reach_result:
  "for_reach n R s s' \<Longrightarrow>
   for_loop n R (fst s) (fst (snd s)) (snd (snd s)) =
   for_loop n R (fst s') (fst (snd s')) (snd (snd s'))"
proof (induction rule: for_reach.induct)
  case start
  show ?case by simp
next
  case (step T1 d k r T1' d')
  then show ?case
    by (simp add: for_loop.simps [of n R T1 d "Suc k"])
qed

section \<open>The claims about rank\<close>

text \<open>
  C10. For every tree array \<open>v\<close> (it has at least one entry) and every \<open>n \<ge> 2\<close>,
  \<open>rank(n, v, 0)\<close> returns \<open>0\<close> and does not reach the fatal branch: the empty
  mask is contained in \<open>v[0]\<close> whatever \<open>v[0]\<close> is, so it is accepted.
\<close>

theorem rank_empty_mask:
  assumes "2 \<le> n" and "v \<noteq> []"
  shows "rank n v 0 = Inr 0"
proof -
  from assms(2) have "0 < length v" by simp
  then have "rank_loop (n - 2) v 0 0 = Inr 0"
    by (simp add: rank_loop.simps [of "n - 2" v 0 0])
  with assms(1) show ?thesis
    by (simp add: rank_def size_sub_simp)
qed

theorem rank_empty_mask_witness:
  "(2::nat) \<le> 4 \<and> [3, 7, 15 :: u64] \<noteq> [] \<and> rank 4 [3, 7, 15] 0 = Inr 0"
  using rank_empty_mask [of 4 "[3, 7, 15]"] by simp

text \<open>
  C6. If no entry \<open>v[0..n-2]\<close> contains the probed mask \<open>x\<close>, then \<open>rank\<close> ends
  in its fatal branch; and a run of \<open>t64_rnni_distance\<close> whose outer loop reaches a
  state with the working copy \<open>v\<close> in which it probes \<open>R[i] = x\<close> ends in that
  branch too, and returns no distance.
\<close>

theorem rank_failure_is_fatal:
  assumes "1 < n" and "n \<le> 64" and "n - 1 \<le> length v"
    and "\<forall>j \<le> n - 2. v ! j AND x \<noteq> x"
  shows "rank n v x = Inl NoAncestorInV
       \<and> (n - 1 \<le> length T \<and> n - 1 \<le> length R
            \<and> for_reach n R (take (n - 1) T, 0, n - 2) (v, d, i) \<and> R ! i = x
            \<longrightarrow> t64_rnni_distance n T R = Inl NoAncestorInV)"
proof (intro conjI impI)
  show fatal: "rank n v x = Inl NoAncestorInV"
    using assms by (intro rank_none) auto
  assume h: "n - 1 \<le> length T \<and> n - 1 \<le> length R
     \<and> for_reach n R (take (n - 1) T, 0, n - 2) (v, d, i) \<and> R ! i = x"
  then have "for_loop n R (take (n - 1) T) 0 (n - 2) = for_loop n R v d i"
    using for_reach_result [of n R "(take (n - 1) T, 0, n - 2)" "(v, d, i)"] by simp
  also have "\<dots> = Inl NoAncestorInV"
    using fatal h by (simp add: for_loop_rank_error)
  finally show "t64_rnni_distance n T R = Inl NoAncestorInV"
    using assms(1,2) h by (simp add: t64_rnni_distance_def)
qed

lemma reach_ex:
  "for_reach 4 [3, 16, 15] (take (4 - 1) [3, 7, 15], 0, 4 - 2) ([3, 7, 15], 0, 1)"
proof -
  have "for_reach 4 [3, 16, 15] ([3, 7, 15], 0, Suc 1) ([3, 7, 15], 0, Suc 1)"
    by (rule for_reach.start)
  moreover have "rank 4 [3, 7, 15] ([3, 16, 15] ! Suc 1) = Inr 2"
    by code_simp
  moreover have "while_loop ([3, 16, 15] ! Suc 1) (Suc 1) [3, 7, 15] 2 0 = Inr ([3, 7, 15], 0)"
    by code_simp
  ultimately have "for_reach 4 [3, 16, 15] ([3, 7, 15], 0, Suc 1) ([3, 7, 15], 0, 1)"
    by (rule for_reach.step)
  then show ?thesis by (simp add: numeral_2_eq_2)
qed

theorem rank_failure_is_fatal_witness:
  "[3, 7, 15 :: u64] ! 0 AND 16 \<noteq> 16 \<and> [3, 7, 15 :: u64] ! 1 AND 16 \<noteq> 16
   \<and> [3, 7, 15 :: u64] ! 2 AND 16 \<noteq> 16
   \<and> rank 4 [3, 7, 15] 16 = Inl NoAncestorInV
   \<and> t64_rnni_distance 4 [3, 7, 15] [3, 16, 15] = Inl NoAncestorInV"
proof -
  have no: "\<forall>j \<le> 4 - 2. [3, 7, 15 :: u64] ! j AND 16 \<noteq> 16"
  proof (intro allI impI)
    fix j :: nat assume "j \<le> 4 - 2"
    then have "j = 0 \<or> j = 1 \<or> j = 2" by auto
    then show "[3, 7, 15 :: u64] ! j AND 16 \<noteq> 16" by auto
  qed
  have "rank 4 [3, 7, 15] 16 = Inl NoAncestorInV
       \<and> (4 - 1 \<le> length [3, 7, 15 :: u64] \<and> 4 - 1 \<le> length [3, 16, 15 :: u64]
            \<and> for_reach 4 [3, 16, 15] (take (4 - 1) [3, 7, 15], 0, 4 - 2) ([3, 7, 15], 0, 1)
            \<and> [3, 16, 15 :: u64] ! 1 = 16
            \<longrightarrow> t64_rnni_distance 4 [3, 7, 15] [3, 16, 15] = Inl NoAncestorInV)"
    using no by (intro rank_failure_is_fatal) simp_all
  with reach_ex show ?thesis by simp
qed

section \<open>The claims about one move\<close>

text \<open>
  C7. A move at rank \<open>r\<close> (one pass through the body of the inner loop) changes the
  working copy at the ranks \<open>r\<close> and \<open>r - 1\<close> only: its length and every entry at
  another rank stay as they were; and in the nested case, \<open>T1[r] & T1[r-1] \<noteq> 0\<close>,
  the entry at rank \<open>r\<close> stays as well.
\<close>

theorem move_changes_adjacent_pair_only:
  assumes "move Ri T1 r = Inr T1'" and "0 < r"
  shows "length T1' = length T1
       \<and> (\<forall>k. k \<noteq> r \<and> k \<noteq> r - 1 \<longrightarrow> T1' ! k = T1 ! k)
       \<and> (T1 ! r AND T1 ! (r - 1) \<noteq> 0 \<longrightarrow> T1' ! r = T1 ! r)"
proof (intro conjI allI impI)
  show "length T1' = length T1"
    using assms(1) by (rule length_move)
next
  fix k assume "k \<noteq> r \<and> k \<noteq> r - 1"
  then show "T1' ! k = T1 ! k"
    using assms(1) by (simp add: move_frame)
next
  assume "T1 ! r AND T1 ! (r - 1) \<noteq> 0"
  then show "T1' ! r = T1 ! r"
    using assms by (simp add: move_nested_keeps_v)
qed

lemma move_ex: "move 10 [3, 7, 15] 2 = Inr [3, 8, 15]"
  by code_simp

theorem move_changes_adjacent_pair_only_witness:
  "move 10 [3, 7, 15] 2 = Inr [3, 8, 15] \<and> (0::nat) < 2
   \<and> [3, 8, 15 :: u64] ! 0 = [3, 7, 15] ! 0 \<and> [3, 8, 15 :: u64] ! 2 = [3, 7, 15] ! 2"
  using move_changes_adjacent_pair_only [OF move_ex] move_ex by simp

section \<open>Masks as sets of leaves\<close>

lemma bits_eq_iff: "x = y \<longleftrightarrow> bits x = bits y"
proof
  assume "bits x = bits y"
  then have "bit x p = bit y p" for p
    by (auto simp: bits_def)
  then show "x = y"
    by (intro bit_eqI)
qed simp

lemma bits_zero [simp]: "bits 0 = {}"
  by (simp add: bits_def)

lemma bits_empty_iff: "bits x = {} \<longleftrightarrow> x = 0"
  by (simp add: bits_eq_iff [of x 0])

lemma bits_and [simp]: "bits (a AND b) = bits a \<inter> bits b"
  by (auto simp: bits_def bit_and_iff)

lemma bits_or [simp]: "bits (a OR b) = bits a \<union> bits b"
  by (auto simp: bits_def bit_or_iff)

lemma subset_bits_iff: "a AND b = a \<longleftrightarrow> bits a \<subseteq> bits b"
  by (auto simp: bits_eq_iff [of "a AND b" a])

lemma subset_bits_iff': "b AND a = a \<longleftrightarrow> bits a \<subseteq> bits b"
  by (auto simp: bits_eq_iff [of "b AND a" a])

lemma disjoint_bits_iff: "a AND b = 0 \<longleftrightarrow> bits a \<inter> bits b = {}"
  by (simp add: bits_eq_iff [of "a AND b" 0])

lemma bits_bound: "bits x \<subseteq> {..<64}"
  by (auto simp: bits_def dest: bit_imp_le_length)

lemma finite_bits [simp]: "finite (bits x)"
  using bits_bound [of x] by (rule finite_subset) simp

lemma bits_pow2: "k < 64 \<Longrightarrow> bits (2 ^ k :: u64) = {k}"
  by (auto simp: bits_def bit_exp_iff)

lemma bits_mask: "n \<le> 64 \<Longrightarrow> bits (mask n :: u64) = {..<n}"
  by (auto simp: bits_def bit_mask_iff)

lemma in_leaves_iff: "x \<in> set (leaves n) \<longleftrightarrow> (\<exists>k<n. x = push_bit k 1)"
  by (auto simp: leaves_def)

section \<open>Facts about well-formed trees\<close>

lemma in_take_nth: "a \<in> set (take r T) \<Longrightarrow> r \<le> length T \<Longrightarrow> \<exists>k<r. a = T ! k"
  by (auto simp: in_set_conv_nth)

lemma wf_treeD:
  assumes "wf_tree n T"
  shows "1 < n" "n \<le> 64" "length T = n - 1" "T ! (n - 2) = mask n"
    "r < n - 1 \<Longrightarrow> two_children n T r" "r < n - 1 \<Longrightarrow> T ! r \<notin> set (leaves n)" "distinct T"
  using assms by (auto simp: wf_tree_def)

lemma child_cases:
  assumes "a \<in> set (leaves n @ take r T)" "r \<le> length T"
  obtains k where "k < n" "a = push_bit k 1" | k where "k < r" "a = T ! k"
  using assms by (auto simp: in_leaves_iff dest: in_take_nth)

lemma wf_bits_bound:
  assumes "wf_tree n T"
  shows "r < n - 1 \<Longrightarrow> bits (T ! r) \<subseteq> {..<n}"
proof (induction r rule: less_induct)
  case (less r)
  note wf = wf_treeD [OF assms]
  from wf(5) [OF less.prems] obtain a b
    where a: "a \<in> set (leaves n @ take r T)" and b: "b \<in> set (leaves n @ take r T)"
      and ab: "a OR b = T ! r"
    by (auto simp: two_children_def)
  have small: "bits c \<subseteq> {..<n}" if "c \<in> set (leaves n @ take r T)" for c
    using that
  proof (rule child_cases)
    show "r \<le> length T" using less.prems wf(3) by simp
  next
    fix k assume "k < n" "c = push_bit k 1"
    with wf(2) show ?thesis by (simp add: bits_pow2)
  next
    fix k assume "k < r" "c = T ! k"
    with less show ?thesis by simp
  qed
  have "bits (T ! r) = bits a \<union> bits b"
    using ab [symmetric] by simp
  with small [OF a] small [OF b] show ?case by simp
qed

lemma wf_within_mask:
  assumes "wf_tree n T" "r < n - 1"
  shows "T ! r AND mask n = T ! r"
  using wf_bits_bound [OF assms] wf_treeD(2) [OF assms(1)]
  by (simp add: subset_bits_iff bits_mask)

lemma wf_facts:
  assumes T: "wf_tree n T" and R: "wf_tree n R"
  shows "2 \<le> n" "\<forall>k \<le> n - 2. R ! k AND mask n = R ! k" "length T = n - 1"
    "\<exists>k<length T. T ! k AND mask n = mask n"
proof -
  note wT = wf_treeD [OF T]
  show n: "2 \<le> n" using wT(1) by simp
  show "\<forall>k \<le> n - 2. R ! k AND mask n = R ! k"
  proof (intro allI impI)
    fix k assume "k \<le> n - 2"
    with n have "k < n - 1" by simp
    with R show "R ! k AND mask n = R ! k" by (rule wf_within_mask)
  qed
  show "length T = n - 1" by (rule wT(3))
  show "\<exists>k<length T. T ! k AND mask n = mask n"
    using wT(3,4) n by (intro exI [of _ "n - 2"]) simp
qed

section \<open>The loops of the distance\<close>

text \<open>
  The working copy always has an entry that contains the full mask: a move overwrites
  \<open>T1[r-1]\<close> only, which does not contain \<open>R[i]\<close> since \<open>rank\<close> found \<open>r\<close>
  as the first rank that does, and a swap keeps both entries. So \<open>rank\<close> finds a rank
  at every probe, whatever the moves made of the other entries.
\<close>

lemma contains_trans: "x AND F = F \<Longrightarrow> Ri AND F = Ri \<Longrightarrow> x AND Ri = Ri"
  by (metis and.assoc and.commute)

lemma move_keeps_full:
  assumes mv: "move Ri T1 r = Inr Ta" and r: "0 < r" "r < length T1"
    and u: "T1 ! (r - 1) AND F \<noteq> F"
    and full: "\<exists>k<length T1. T1 ! k AND F = F"
  shows "\<exists>k<length Ta. Ta ! k AND F = F"
proof -
  from full obtain k where k: "k < length T1" "T1 ! k AND F = F" by blast
  with u have ne: "k \<noteq> r - 1" by auto
  have len: "length Ta = length T1" using mv by (rule length_move)
  show ?thesis
  proof (cases "k = r")
    case False
    with ne mv have "Ta ! k = T1 ! k" by (simp add: move_frame)
    with k len show ?thesis by auto
  next
    case True
    show ?thesis
    proof (cases "T1 ! r AND T1 ! (r - 1) = 0")
      case nested: False
      with mv r have "Ta ! r = T1 ! r" by (simp add: move_nested_keeps_v)
      with k len True show ?thesis by auto
    next
      case swap: True
      with mv have "Ta = T1[r := T1 ! (r - 1), r - 1 := T1 ! r]"
        by (simp add: move_def Let_def)
      with r have "Ta ! (r - 1) = T1 ! r" by simp
      with k True len r show ?thesis
        by (intro exI [of _ "r - 1"]) simp
    qed
  qed
qed

lemma while_loop_returns:
  assumes "r < length T1" and "\<forall>k<r. T1 ! k AND Ri \<noteq> Ri" and "Ri AND F = Ri"
    and "\<exists>k<length T1. T1 ! k AND F = F"
  shows "\<exists>T1' d'. while_loop Ri i T1 r d = Inr (T1', d') \<and> length T1' = length T1
           \<and> (\<exists>k<length T1'. T1' ! k AND F = F) \<and> d' = d + of_nat (r - i)"
  using assms
proof (induction Ri i T1 r d rule: while_loop.induct)
  case (1 Ri i T1 r d)
  show ?case
  proof (cases "i < r")
    case False
    with "1.prems" show ?thesis
      by (simp add: while_loop.simps [of Ri i T1 r d])
  next
    case True
    obtain Ta where mv: "move Ri T1 r = Inr Ta"
      using move_total by blast
    have len: "length Ta = length T1" using mv by (rule length_move)
    have r: "0 < r" using True by simp
    have "T1 ! (r - 1) AND Ri \<noteq> Ri"
      using "1.prems"(2) r by simp
    with "1.prems"(3) have u: "T1 ! (r - 1) AND F \<noteq> F"
      using contains_trans by blast
    have full: "\<exists>k<length Ta. Ta ! k AND F = F"
      using mv r "1.prems"(1) u "1.prems"(4) by (rule move_keeps_full)
    have below: "\<forall>k<r - 1. Ta ! k AND Ri \<noteq> Ri"
      using mv "1.prems"(2) by (simp add: move_frame)
    have "\<exists>T1' d'. while_loop Ri i Ta (r - 1) (d + 1) = Inr (T1', d') \<and> length T1' = length Ta
           \<and> (\<exists>k<length T1'. T1' ! k AND F = F) \<and> d' = d + 1 + of_nat (r - 1 - i)"
      using True mv len "1.prems"(1,3) below full
      by (intro "1.IH") auto
    moreover have "d + 1 + of_nat (r - 1 - i) = d + of_nat (r - i)"
    proof -
      from True have "r - i = Suc (r - 1 - i)" by simp
      then show ?thesis by (simp only: of_nat_Suc) simp
    qed
    ultimately show ?thesis
      using True mv len by (simp add: while_loop.simps [of Ri i T1 r d])
  qed
qed

lemma unat_add_of_nat_le: "unat (d + of_nat k :: u64) \<le> unat d + k"
proof -
  have "unat (d + of_nat k :: u64) \<le> unat d + unat (of_nat k :: u64)"
    by (simp add: unat_word_ariths)
  also have "unat (of_nat k :: u64) \<le> k"
    by (simp add: unat_of_nat)
  finally show ?thesis by simp
qed

lemma triangle_step:
  assumes "Suc k \<le> m"
  shows "2 * (m - Suc k) + Suc k * (2 * m - k) = Suc (Suc k) * (2 * m - Suc k)"
proof -
  from assms obtain t where m: "m = Suc k + t"
    using le_Suc_ex by blast
  have "2 * m - k = k + 2 + 2 * t" "2 * m - Suc k = k + 1 + 2 * t" "m - Suc k = t"
    using m by simp_all
  then show ?thesis by (simp add: algebra_simps)
qed


lemma outer_iteration:
  assumes n: "2 \<le> n" and len: "length T1 = n - 1" and i: "i \<le> n - 2"
    and full: "\<exists>k<length T1. T1 ! k AND mask n = mask n"
    and Ri: "R ! i AND mask n = R ! i"
  shows "\<exists>r T1' d'. rank n T1 (R ! i) = Inr r \<and> while_loop (R ! i) i T1 r d = Inr (T1', d')
           \<and> length T1' = n - 1 \<and> (\<exists>k<length T1'. T1' ! k AND mask n = mask n)
           \<and> unat d' \<le> unat d + (n - 2 - i)"
proof -
  from full obtain k where k: "k < length T1" "T1 ! k AND mask n = mask n"
    by blast
  from k(1) len have kn: "k \<le> n - 2" by simp
  from k(2) Ri have "T1 ! k AND R ! i = R ! i"
    by (rule contains_trans)
  with n len kn obtain r where r: "r \<le> k" "rank n T1 (R ! i) = Inr r"
    using rank_some [of n T1 k "R ! i"] by auto
  from r(2) n len have first: "\<forall>j<r. T1 ! j AND R ! i \<noteq> R ! i"
    by (simp add: rank_Inr_iff)
  from r(1) k(1) have rl: "r < length T1" by simp
  from while_loop_returns [OF rl first Ri full, of i d]
  obtain T1' d' where w: "while_loop (R ! i) i T1 r d = Inr (T1', d')" "length T1' = length T1"
    "\<exists>k<length T1'. T1' ! k AND mask n = mask n" "d' = d + of_nat (r - i)"
    by blast
  have "unat d' \<le> unat d + (r - i)"
    unfolding w(4) by (rule unat_add_of_nat_le)
  also have "\<dots> \<le> unat d + (n - 2 - i)"
    using r(1) kn by simp
  finally show ?thesis
    using r(2) w len by auto
qed

lemma for_loop_returns:
  assumes "2 \<le> n" and "\<forall>k \<le> n - 2. R ! k AND mask n = R ! k"
  shows "length T1 = n - 1 \<Longrightarrow> i \<le> n - 2 \<Longrightarrow> \<exists>k<length T1. T1 ! k AND mask n = mask n \<Longrightarrow>
    \<exists>T1' d'. for_loop n R T1 d i = Inr (T1', d')
       \<and> 2 * unat d' \<le> 2 * unat d + Suc i * (2 * (n - 2) - i)"
proof (induction i arbitrary: T1 d)
  case 0
  have "R ! 0 AND mask n = R ! 0"
    using assms(2) by simp
  from outer_iteration [OF assms(1) "0.prems" this, of d]
  obtain r T1' d' where it: "rank n T1 (R ! 0) = Inr r"
      "while_loop (R ! 0) 0 T1 r d = Inr (T1', d')" "unat d' \<le> unat d + (n - 2 - 0)"
    by blast
  then show ?case
    by (simp add: for_loop.simps [of n R T1 d 0])
next
  case (Suc i)
  have "R ! Suc i AND mask n = R ! Suc i"
    using assms(2) Suc.prems(2) by simp
  from outer_iteration [OF assms(1) Suc.prems this, of d]
  obtain r T1' d' where it: "rank n T1 (R ! Suc i) = Inr r"
      "while_loop (R ! Suc i) (Suc i) T1 r d = Inr (T1', d')" "length T1' = n - 1"
      "\<exists>k<length T1'. T1' ! k AND mask n = mask n" "unat d' \<le> unat d + (n - 2 - Suc i)"
    by blast
  from Suc.prems(2) have "i \<le> n - 2" by simp
  from Suc.IH [OF it(3) this it(4), of d']
  obtain T2 d2 where rest: "for_loop n R T1' d' i = Inr (T2, d2)"
      "2 * unat d2 \<le> 2 * unat d' + Suc i * (2 * (n - 2) - i)"
    by blast
  have "2 * unat d2 \<le> 2 * unat d + (2 * (n - 2 - Suc i) + Suc i * (2 * (n - 2) - i))"
    using rest(2) it(5) by linarith
  also have "2 * (n - 2 - Suc i) + Suc i * (2 * (n - 2) - i) = Suc (Suc i) * (2 * (n - 2) - Suc i)"
    using Suc.prems(2) by (rule triangle_step)
  finally show ?case
    using it(1,2) rest(1) by (simp add: for_loop.simps [of n R T1 d "Suc i"])
qed

lemma while_loop_count:
  "\<exists>T1'. while_loop Ri i T1 r d = Inr (T1', d + of_nat (r - i))"
proof (induction Ri i T1 r d rule: while_loop.induct)
  case (1 Ri i T1 r d)
  show ?case
  proof (cases "i < r")
    case False
    then show ?thesis
      by (simp add: while_loop.simps [of Ri i T1 r d])
  next
    case True
    obtain Ta where mv: "move Ri T1 r = Inr Ta"
      using move_total by blast
    from "1.IH" [OF True mv] obtain T1'
      where "while_loop Ri i Ta (r - 1) (d + 1) = Inr (T1', d + 1 + of_nat (r - 1 - i))"
      by blast
    moreover have "d + 1 + of_nat (r - 1 - i) = d + of_nat (r - i)"
    proof -
      from True have "r - i = Suc (r - 1 - i)" by simp
      then show ?thesis by (simp only: of_nat_Suc) simp
    qed
    ultimately show ?thesis
      using True mv by (simp add: while_loop.simps [of Ri i T1 r d])
  qed
qed

lemma for_reach_idx_le: "for_reach n R s s' \<Longrightarrow> snd (snd s') \<le> snd (snd s)"
  by (induction rule: for_reach.induct) simp_all

lemma for_reach_unique:
  "for_reach n R s a \<Longrightarrow> for_reach n R s b \<Longrightarrow> snd (snd a) = snd (snd b) \<Longrightarrow> a = b"
proof (induction arbitrary: b rule: for_reach.induct)
  case start
  from start(1) show ?case
  proof (cases rule: for_reach.cases)
    case start
    then show ?thesis by simp
  next
    case (step T1 d k r T1' d')
    with for_reach_idx_le [OF step(2)] start(2) show ?thesis by simp
  qed
next
  case (step T1 d k r T1' d')
  from step.prems(1) show ?case
  proof (cases rule: for_reach.cases)
    case start
    with for_reach_idx_le [OF step.hyps(1)] step.prems(2) show ?thesis by simp
  next
    case inner: (step T2 d2 k2 r2 T2' d2')
    with step.prems(2) have k: "k2 = k" by simp
    with step.IH [OF inner(2)] have "(T1, d, Suc k) = (T2, d2, Suc k2)" by simp
    with step.hyps(2,3) inner(1,3,4) k show ?thesis by simp
  qed
qed

lemma for_reach_inv:
  assumes n: "2 \<le> n" and inR: "\<forall>k \<le> n - 2. R ! k AND mask n = R ! k"
    and T: "length T = n - 1" "\<exists>k<length T. T ! k AND mask n = mask n"
  shows "for_reach n R (T, d0, n - 2) s \<Longrightarrow>
    length (fst s) = n - 1 \<and> (\<exists>k<length (fst s). fst s ! k AND mask n = mask n)"
proof (induction rule: for_reach.induct)
  case start
  from T show ?case by simp
next
  case (step T1 d k r T1' d')
  from for_reach_idx_le [OF step.hyps(1)] have k: "Suc k \<le> n - 2" by simp
  with inR have Ri: "R ! Suc k AND mask n = R ! Suc k" by simp
  note inv = step.IH [unfolded fst_conv]
  from inv have len: "length T1 = n - 1" by (rule conjunct1)
  from inv have full: "\<exists>k<length T1. T1 ! k AND mask n = mask n" by (rule conjunct2)
  from outer_iteration [OF n len k full Ri, of d]
  obtain r2 T2 d2 where it: "rank n T1 (R ! Suc k) = Inr r2"
      "while_loop (R ! Suc k) (Suc k) T1 r2 d = Inr (T2, d2)"
      "length T2 = n - 1" "\<exists>k<length T2. T2 ! k AND mask n = mask n"
    by blast
  from it(1) step.hyps(2) have "r2 = r" by simp
  with it(2) step.hyps(3) have "T2 = T1'" by simp
  with it(3,4) show ?case by simp
qed

lemma for_reach_exists:
  assumes n: "2 \<le> n" and inR: "\<forall>k \<le> n - 2. R ! k AND mask n = R ! k"
    and T: "length T = n - 1" "\<exists>k<length T. T ! k AND mask n = mask n"
    and i: "i \<le> n - 2"
  shows "\<exists>T1 d. for_reach n R (T, d0, n - 2) (T1, d, i)"
  using i
proof (induction rule: inc_induct)
  case base
  show ?case by (blast intro: for_reach.start)
next
  case (step k)
  then obtain T1 d where re: "for_reach n R (T, d0, n - 2) (T1, d, Suc k)" by blast
  from step.hyps(2) have k: "Suc k \<le> n - 2" by simp
  with inR have Ri: "R ! Suc k AND mask n = R ! Suc k" by simp
  note inv = for_reach_inv [OF n inR T re, unfolded fst_conv]
  from inv have len: "length T1 = n - 1" by (rule conjunct1)
  from inv have full: "\<exists>k<length T1. T1 ! k AND mask n = mask n" by (rule conjunct2)
  from outer_iteration [OF n len k full Ri, of d]
  obtain r T1' d' where "rank n T1 (R ! Suc k) = Inr r"
      "while_loop (R ! Suc k) (Suc k) T1 r d = Inr (T1', d')"
    by blast
  with re have "for_reach n R (T, d0, n - 2) (T1', d', k)"
    by (rule for_reach.step)
  then show ?case by blast
qed

section \<open>Derivations in a well-formed tree\<close>

text \<open>
  Every entry of a well-formed tree has a derivation. The derivation of the entry at
  rank \<open>n - 2\<close> has \<open>n\<close> leaves, hence \<open>n - 1\<close> inner nodes, which carry different
  ranks: every rank of the tree occurs in it. Two entries are therefore disjoint, or the
  one of lower rank is a proper part of the other.
\<close>

lemma derives_nonempty:
  "derives n T t \<Longrightarrow> n \<le> 64 \<Longrightarrow> bits (dmask T t) \<noteq> {}"
proof (induction t)
  case (Leaf k)
  then show ?case by (simp add: bits_pow2)
next
  case (Node r l t)
  from Node.prems have "bits (T ! r) = bits (dmask T l) \<union> bits (dmask T t)"
    by (metis bits_or derives.simps(2))
  with Node show ?case by simp
qed

lemma derives_below:
  "derives n T t \<Longrightarrow> lower t r \<Longrightarrow> k \<in> idxs t \<Longrightarrow> k < r"
proof (induction t arbitrary: r k)
  case (Leaf x)
  then show ?case by simp
next
  case (Node r' l t)
  from Node.prems have r': "r' < r" and l: "derives n T l" "lower l r'"
    and t: "derives n T t" "lower t r'"
    by simp_all
  from Node.prems(3) consider "k = r'" | "k \<in> idxs l" | "k \<in> idxs t" by auto
  then show ?case
  proof cases
    case 1
    with r' show ?thesis by simp
  next
    case 2
    with Node.IH(1) l have "k < r'" by blast
    with r' show ?thesis by simp
  next
    case 3
    with Node.IH(2) t have "k < r'" by blast
    with r' show ?thesis by simp
  qed
qed

lemma derives_inside:
  "derives n T t \<Longrightarrow> n \<le> 64 \<Longrightarrow> k \<in> idxs t \<Longrightarrow>
   bits (T ! k) \<subseteq> bits (dmask T t) \<and> bits (T ! k) \<noteq> {}"
proof (induction t)
  case (Leaf x)
  then show ?case by simp
next
  case (Node r l t)
  from Node.prems have l: "derives n T l" and t: "derives n T t"
    and eq: "bits (T ! r) = bits (dmask T l) \<union> bits (dmask T t)"
    by (simp_all, metis bits_or)
  have ne: "bits (T ! r) \<noteq> {}"
    using derives_nonempty [OF Node.prems(1,2)] by simp
  from Node.prems(3) consider "k = r" | "k \<in> idxs l" | "k \<in> idxs t" by auto
  then show ?case
  proof cases
    case 1
    with ne show ?thesis by simp
  next
    case 2
    with Node.IH(1) l Node.prems(2) eq show ?thesis by auto
  next
    case 3
    with Node.IH(2) t Node.prems(2) eq show ?thesis by auto
  qed
qed

lemma finite_idxs [simp]: "finite (idxs t)"
  by (induction t) simp_all

lemma derives_children:
  assumes "derives n T (Node r l t)" "n \<le> 64"
  shows "idxs l \<inter> idxs t = {}" "r \<notin> idxs l" "r \<notin> idxs t"
    "bits (dmask T l) \<inter> bits (dmask T t) = {}"
    "bits (T ! r) = bits (dmask T l) \<union> bits (dmask T t)"
proof -
  from assms(1) have l: "derives n T l" "lower l r" and t: "derives n T t" "lower t r"
    and dis: "dmask T l AND dmask T t = 0" and un: "dmask T l OR dmask T t = T ! r"
    by simp_all
  from dis show d: "bits (dmask T l) \<inter> bits (dmask T t) = {}"
    by (simp add: disjoint_bits_iff)
  from un show "bits (T ! r) = bits (dmask T l) \<union> bits (dmask T t)"
    by (metis bits_or)
  show "r \<notin> idxs l" using derives_below [OF l] by blast
  show "r \<notin> idxs t" using derives_below [OF t] by blast
  show "idxs l \<inter> idxs t = {}"
  proof (rule ccontr)
    assume "idxs l \<inter> idxs t \<noteq> {}"
    then obtain k where "k \<in> idxs l" "k \<in> idxs t" by blast
    with derives_inside [OF l(1) assms(2)] derives_inside [OF t(1) assms(2)] d
    show False by blast
  qed
qed

lemma derives_card:
  "derives n T t \<Longrightarrow> n \<le> 64 \<Longrightarrow> card (bits (dmask T t)) = card (idxs t) + 1"
proof (induction t)
  case (Leaf k)
  then show ?case by (simp add: bits_pow2)
next
  case (Node r l t)
  note ch = derives_children [OF Node.prems]
  from Node.prems have l: "derives n T l" and t: "derives n T t" by simp_all
  have "card (bits (T ! r)) = card (bits (dmask T l)) + card (bits (dmask T t))"
    using ch(4,5) by (simp add: card_Un_disjoint)
  also have "\<dots> = (card (idxs l) + 1) + (card (idxs t) + 1)"
    using Node.IH l t Node.prems(2) by simp
  finally have "card (bits (T ! r)) = card (idxs l) + card (idxs t) + 2"
    by simp
  moreover have "card (idxs l) + card (idxs t) = card (idxs l \<union> idxs t)"
    using ch(1) by (simp add: card_Un_disjoint)
  ultimately show ?case
    using ch(2,3) by simp
qed

lemma derives_order:
  "derives n T t \<Longrightarrow> n \<le> 64 \<Longrightarrow> i \<in> idxs t \<Longrightarrow> j \<in> idxs t \<Longrightarrow> j < i \<Longrightarrow>
   bits (T ! j) \<inter> bits (T ! i) = {} \<or> bits (T ! j) \<subset> bits (T ! i)"
proof (induction t)
  case (Leaf k)
  then show ?case by simp
next
  case (Node r l t)
  note ch = derives_children [OF Node.prems(1,2)]
  from Node.prems have l: "derives n T l" "lower l r" and t: "derives n T t" "lower t r"
    by simp_all
  note inl = derives_inside [OF l(1) Node.prems(2)] and int = derives_inside [OF t(1) Node.prems(2)]
  note nel = derives_nonempty [OF l(1) Node.prems(2)] and net = derives_nonempty [OF t(1) Node.prems(2)]
  have below: "k < r" if "k \<in> idxs l \<union> idxs t" for k
    using that derives_below [OF l] derives_below [OF t] by blast
  from Node.prems(3) consider "i = r" | "i \<in> idxs l" | "i \<in> idxs t" by auto
  then show ?case
  proof cases
    case 1
    with Node.prems(4,5) have "j \<in> idxs l \<or> j \<in> idxs t" by auto
    then have "bits (T ! j) \<subset> bits (T ! r)"
    proof
      assume "j \<in> idxs l"
      with inl have "bits (T ! j) \<subseteq> bits (dmask T l)" by blast
      with ch(4,5) net show ?thesis by blast
    next
      assume "j \<in> idxs t"
      with int have "bits (T ! j) \<subseteq> bits (dmask T t)" by blast
      with ch(4,5) nel show ?thesis by blast
    qed
    with 1 show ?thesis by simp
  next
    case 2
    with below [of i] Node.prems(5) have "j \<noteq> r" by auto
    with Node.prems(4) consider "j \<in> idxs l" | "j \<in> idxs t" by auto
    then show ?thesis
    proof cases
      case 1
      with Node.IH(1) l(1) Node.prems(2,5) 2 show ?thesis by blast
    next
      case 2
      with int have "bits (T ! j) \<subseteq> bits (dmask T t)" by blast
      moreover from \<open>i \<in> idxs l\<close> inl have "bits (T ! i) \<subseteq> bits (dmask T l)" by blast
      ultimately show ?thesis using ch(4) by blast
    qed
  next
    case 3
    with below [of i] Node.prems(5) have "j \<noteq> r" by auto
    with Node.prems(4) consider "j \<in> idxs l" | "j \<in> idxs t" by auto
    then show ?thesis
    proof cases
      case 1
      with inl have "bits (T ! j) \<subseteq> bits (dmask T l)" by blast
      moreover from \<open>i \<in> idxs t\<close> int have "bits (T ! i) \<subseteq> bits (dmask T t)" by blast
      ultimately show ?thesis using ch(4) by blast
    next
      case 2
      with Node.IH(2) t(1) Node.prems(2,5) 3 show ?thesis by blast
    qed
  qed
qed

lemma derives_exists:
  assumes "wf_tree n T"
  shows "r < n - 1 \<Longrightarrow> \<exists>l t. derives n T (Node r l t)"
proof (induction r rule: less_induct)
  case (less r)
  note wf = wf_treeD [OF assms]
  from wf(5) [OF less.prems] obtain a b
    where a: "a \<in> set (leaves n @ take r T)" and b: "b \<in> set (leaves n @ take r T)"
      and ab: "a AND b = 0" "a OR b = T ! r"
    by (auto simp: two_children_def)
  have sub: "\<exists>tc. derives n T tc \<and> dmask T tc = c \<and> lower tc r"
    if "c \<in> set (leaves n @ take r T)" for c
    using that
  proof (rule child_cases)
    show "r \<le> length T" using less.prems wf(3) by simp
  next
    fix k assume "k < n" "c = push_bit k 1"
    then have "derives n T (Leaf k) \<and> dmask T (Leaf k) = c \<and> lower (Leaf k) r" by simp
    then show ?thesis ..
  next
    fix k assume k: "k < r" "c = T ! k"
    with less obtain l t where "derives n T (Node k l t)" by force
    with k have "derives n T (Node k l t) \<and> dmask T (Node k l t) = c \<and> lower (Node k l t) r"
      by simp
    then show ?thesis ..
  qed
  from sub [OF a] obtain ta where ta: "derives n T ta" "dmask T ta = a" "lower ta r" by blast
  from sub [OF b] obtain tb where tb: "derives n T tb" "dmask T tb = b" "lower tb r" by blast
  from ta tb ab have "derives n T (Node r ta tb)" by simp
  then show ?case by blast
qed

lemma wf_root_covers:
  assumes "wf_tree n T"
  obtains l t where "derives n T (Node (n - 2) l t)" "idxs (Node (n - 2) l t) = {..<n - 1}"
proof -
  note wf = wf_treeD [OF assms]
  from wf(1) have n2: "n - 2 < n - 1" by simp
  from derives_exists [OF assms n2] obtain l t where d: "derives n T (Node (n - 2) l t)"
    by blast
  let ?t = "Node (n - 2) l t"
  have "card (bits (dmask T ?t)) = card (idxs ?t) + 1"
    using d wf(2) by (rule derives_card)
  moreover have "bits (dmask T ?t) = {..<n}"
    using wf(2,4) by (simp add: bits_mask)
  ultimately have card: "card (idxs ?t) = n - 1" by simp
  from d have l: "derives n T l" "lower l (n - 2)" and t: "derives n T t" "lower t (n - 2)"
    by simp_all
  have "idxs ?t \<subseteq> {..<n - 1}"
    using derives_below [OF l] derives_below [OF t] n2 by fastforce
  then have "idxs ?t = {..<n - 1}"
    using card by (intro card_subset_eq) simp_all
  with d show ?thesis by (rule that)
qed

lemma wf_order:
  assumes "wf_tree n T" "j < i" "i < n - 1"
  shows "bits (T ! j) \<inter> bits (T ! i) = {} \<or> bits (T ! j) \<subset> bits (T ! i)"
proof -
  from assms(1) obtain l t where d: "derives n T (Node (n - 2) l t)"
    and all: "idxs (Node (n - 2) l t) = {..<n - 1}"
    by (rule wf_root_covers)
  from assms(2,3) all have "i \<in> idxs (Node (n - 2) l t)" "j \<in> idxs (Node (n - 2) l t)"
    by simp_all
  with d wf_treeD(2) [OF assms(1)] assms(2) show ?thesis
    by (intro derives_order [of n T "Node (n - 2) l t"])
qed

lemma wf_nonempty:
  assumes "wf_tree n T" "i < n - 1"
  shows "bits (T ! i) \<noteq> {}"
proof -
  from assms(1) obtain l t where d: "derives n T (Node (n - 2) l t)"
    and all: "idxs (Node (n - 2) l t) = {..<n - 1}"
    by (rule wf_root_covers)
  from assms(2) all have "i \<in> idxs (Node (n - 2) l t)" by simp
  with derives_inside [OF d wf_treeD(2) [OF assms(1)]] show ?thesis by blast
qed

lemma wf_not_below:
  assumes "wf_tree n T" "j < i" "i < n - 1"
  shows "T ! j AND T ! i \<noteq> T ! i"
proof
  assume "T ! j AND T ! i = T ! i"
  then have "bits (T ! i) \<subseteq> bits (T ! j)"
    by (simp add: subset_bits_iff')
  with wf_order [OF assms] wf_nonempty [OF assms(1,3)] show False by blast
qed

lemma rank_self:
  assumes "wf_tree n T" "i < n - 1"
  shows "rank n T (T ! i) = Inr i"
proof -
  note wf = wf_treeD [OF assms(1)]
  have "\<forall>j<i. T ! j AND T ! i \<noteq> T ! i"
    using wf_not_below [OF assms(1) _ assms(2)] by blast
  with assms(2) wf(1,3) show ?thesis
    by (simp add: rank_Inr_iff)
qed

lemma for_loop_self:
  assumes "wf_tree n T"
  shows "i < n - 1 \<Longrightarrow> for_loop n T T d i = Inr (T, d)"
proof (induction i)
  case 0
  then show ?case
    using rank_self [OF assms, of 0]
    by (simp add: for_loop.simps [of n T T d 0] while_loop.simps [of "T ! 0" 0 T 0 d])
next
  case (Suc i)
  then show ?case
    using rank_self [OF assms, of "Suc i"]
    by (simp add: for_loop.simps [of n T T d "Suc i"]
        while_loop.simps [of "T ! Suc i" "Suc i" T "Suc i" d])
qed

section \<open>Two trees with four leaves\<close>

lemma wf_ex1: "wf_tree 4 [3, 7, 15]"
  by code_simp

lemma wf_ex2: "wf_tree 4 [5, 10, 15]"
  by code_simp

lemma dist_ex12: "t64_rnni_distance 4 [3, 7, 15] [5, 10, 15] = Inr 3"
  by code_simp

lemma dist_ex21: "t64_rnni_distance 4 [5, 10, 15] [3, 7, 15] = Inr 2"
  by code_simp

lemma reach_ex12:
  "for_reach 4 [5, 10, 15] (take (4 - 1) [3, 7, 15], 0, 4 - 2) ([3, 7, 15], 0, 1)"
proof -
  have "for_reach 4 [5, 10, 15] ([3, 7, 15], 0, Suc 1) ([3, 7, 15], 0, Suc 1)"
    by (rule for_reach.start)
  moreover have "rank 4 [3, 7, 15] ([5, 10, 15] ! Suc 1) = Inr 2"
    by code_simp
  moreover have "while_loop ([5, 10, 15] ! Suc 1) (Suc 1) [3, 7, 15] 2 0 = Inr ([3, 7, 15], 0)"
    by code_simp
  ultimately have "for_reach 4 [5, 10, 15] ([3, 7, 15], 0, Suc 1) ([3, 7, 15], 0, 1)"
    by (rule for_reach.step)
  then show ?thesis by (simp add: numeral_2_eq_2)
qed

lemma reach_ex12_0:
  "for_reach 4 [5, 10, 15] (take (4 - 1) [3, 7, 15], 0, 4 - 2) ([3, 8, 15], 1, 0)"
proof -
  have "for_reach 4 [5, 10, 15] (take (4 - 1) [3, 7, 15], 0, 4 - 2) ([3, 7, 15], 0, Suc 0)"
    using reach_ex12 by simp
  moreover have "rank 4 [3, 7, 15] ([5, 10, 15] ! Suc 0) = Inr 2"
    by code_simp
  moreover have "while_loop ([5, 10, 15] ! Suc 0) (Suc 0) [3, 7, 15] 2 0 = Inr ([3, 8, 15], 1)"
    by code_simp
  ultimately show ?thesis
    by (rule for_reach.step)
qed

lemma rank_ex12_0: "rank 4 [3, 8, 15] ([5, 10, 15] ! 0) = Inr 2"
  by code_simp

lemma while_ex12_0: "while_loop ([5, 10, 15] ! 0) 0 [3, 8, 15] 2 1 = Inr ([5, 7, 15], 3)"
  by code_simp

section \<open>The claims about well-formed trees\<close>

text \<open>
  C8. \<open>t64_rnni_distance\<close> returns a distance on every pair of well-formed trees with
  the same number \<open>n\<close> of leaves, \<open>2 \<le> n \<le> 64\<close>. The outer loop stands at the head
  of its body exactly once for each rank \<open>i\<close> from \<open>n - 2\<close> down to \<open>0\<close>. In each of
  these states \<open>(T1, d, i)\<close> \<open>rank\<close> finds a rank \<open>r\<close> and the inner loop ends after
  \<open>r - i\<close> passes (none when \<open>r \<le> i\<close>), each of which lowers \<open>r\<close> by one and adds
  one to the counter; the run of the outer loop from its start is the run from that state,
  which goes through the body at rank \<open>i\<close> and on to rank \<open>i - 1\<close>; and the value the
  function returns is the counter after the body at rank \<open>0\<close>.
\<close>

theorem distance_terminates:
  assumes T: "wf_tree n T" and R: "wf_tree n R"
  shows "(\<exists>d. t64_rnni_distance n T R = Inr d)
       \<and> (\<forall>i \<le> n - 2. \<exists>!s. for_reach n R (take (n - 1) T, 0, n - 2) s \<and> snd (snd s) = i)
       \<and> (\<forall>T1 d i. for_reach n R (take (n - 1) T, 0, n - 2) (T1, d, i) \<longrightarrow>
            (\<exists>r T1'. rank n T1 (R ! i) = Inr r
               \<and> while_loop (R ! i) i T1 r d = Inr (T1', d + of_nat (r - i))
               \<and> for_loop n R (take (n - 1) T) 0 (n - 2) = for_loop n R T1 d i
               \<and> for_loop n R T1 d i =
                   (case i of 0 \<Rightarrow> Inr (T1', d + of_nat (r - i))
                    | Suc k \<Rightarrow> for_loop n R T1' (d + of_nat (r - i)) k)
               \<and> (i = 0 \<longrightarrow> t64_rnni_distance n T R = Inr (d + of_nat (r - i)))))
       \<and> (\<exists>T1'. while_loop Ri k T1 r d0 = Inr (T1', d0 + of_nat (r - k)))"
proof (intro conjI allI impI)
  note f = wf_facts [OF T R] and wT = wf_treeD [OF T] and wR = wf_treeD [OF R]
  from for_loop_returns [OF f(1,2,3) order_refl f(4), of 0]
  obtain T1' d where "for_loop n R T 0 (n - 2) = Inr (T1', d)" by blast
  then have "t64_rnni_distance n T R = Inr d"
    using wT wR by (simp add: t64_rnni_distance_def)
  then show "\<exists>d. t64_rnni_distance n T R = Inr d" ..
next
  note f = wf_facts [OF T R]
  fix i assume "i \<le> n - 2"
  from for_reach_exists [OF f this, of 0] obtain T1 d
    where re: "for_reach n R (T, 0, n - 2) (T1, d, i)" by blast
  show "\<exists>!s. for_reach n R (take (n - 1) T, 0, n - 2) s \<and> snd (snd s) = i"
  proof (rule ex1I [of _ "(T1, d, i)"])
    show "for_reach n R (take (n - 1) T, 0, n - 2) (T1, d, i) \<and> snd (snd (T1, d, i)) = i"
      using re f(3) by simp
  next
    fix s assume "for_reach n R (take (n - 1) T, 0, n - 2) s \<and> snd (snd s) = i"
    with re f(3) show "s = (T1, d, i)"
      using for_reach_unique [of n R "(T, 0, n - 2)" s "(T1, d, i)"] by simp
  qed
next
  note f = wf_facts [OF T R] and wT = wf_treeD [OF T] and wR = wf_treeD [OF R]
  fix T1 d i
  assume "for_reach n R (take (n - 1) T, 0, n - 2) (T1, d, i)"
  with f(3) have re: "for_reach n R (T, 0, n - 2) (T1, d, i)" by simp
  from for_reach_idx_le [OF re] have i: "i \<le> n - 2" by simp
  with f(2) have Ri: "R ! i AND mask n = R ! i" by simp
  note inv = for_reach_inv [OF f re, unfolded fst_conv]
  from inv have len: "length T1 = n - 1" by (rule conjunct1)
  from inv have full: "\<exists>k<length T1. T1 ! k AND mask n = mask n" by (rule conjunct2)
  from outer_iteration [OF f(1) len i full Ri, of d]
  obtain r T1' d' where it: "rank n T1 (R ! i) = Inr r"
      "while_loop (R ! i) i T1 r d = Inr (T1', d')"
    by blast
  from while_loop_count [of "R ! i" i T1 r d] it(2)
  have w: "while_loop (R ! i) i T1 r d = Inr (T1', d + of_nat (r - i))" by auto
  have same: "for_loop n R (take (n - 1) T) 0 (n - 2) = for_loop n R T1 d i"
    using for_reach_result [OF re] f(3) by simp
  have body: "for_loop n R T1 d i =
      (case i of 0 \<Rightarrow> Inr (T1', d + of_nat (r - i))
       | Suc k \<Rightarrow> for_loop n R T1' (d + of_nat (r - i)) k)"
    using it(1) w by (simp add: for_loop.simps [of n R T1 d i])
  have last: "t64_rnni_distance n T R = Inr (d + of_nat (r - i))" if "i = 0"
    using that same body wT wR by (simp add: t64_rnni_distance_def)
  from it(1) w same body last
  show "\<exists>r T1'. rank n T1 (R ! i) = Inr r
               \<and> while_loop (R ! i) i T1 r d = Inr (T1', d + of_nat (r - i))
               \<and> for_loop n R (take (n - 1) T) 0 (n - 2) = for_loop n R T1 d i
               \<and> for_loop n R T1 d i =
                   (case i of 0 \<Rightarrow> Inr (T1', d + of_nat (r - i))
                    | Suc k \<Rightarrow> for_loop n R T1' (d + of_nat (r - i)) k)
               \<and> (i = 0 \<longrightarrow> t64_rnni_distance n T R = Inr (d + of_nat (r - i)))"
    by blast
next
  show "\<exists>T1'. while_loop Ri k T1 r d0 = Inr (T1', d0 + of_nat (r - k))"
    by (rule while_loop_count)
qed

theorem distance_terminates_witness:
  "wf_tree 4 [3, 7, 15] \<and> wf_tree 4 [5, 10, 15]
   \<and> for_reach 4 [5, 10, 15] (take (4 - 1) [3, 7, 15], 0, 4 - 2) ([3, 7, 15], 0, 1)
   \<and> for_reach 4 [5, 10, 15] (take (4 - 1) [3, 7, 15], 0, 4 - 2) ([3, 8, 15], 1, 0)
   \<and> rank 4 [3, 8, 15] ([5, 10, 15] ! 0) = Inr 2
   \<and> while_loop ([5, 10, 15] ! 0) 0 [3, 8, 15] 2 1 = Inr ([5, 7, 15], 3)
   \<and> for_loop 4 [5, 10, 15] (take (4 - 1) [3, 7, 15]) 0 (4 - 2) = Inr ([5, 7, 15], 3)
   \<and> t64_rnni_distance 4 [3, 7, 15] [5, 10, 15] = Inr 3"
proof -
  from distance_terminates [OF wf_ex1 wf_ex2]
  have "\<forall>T1 d i. for_reach 4 [5, 10, 15] (take (4 - 1) [3, 7, 15], 0, 4 - 2) (T1, d, i) \<longrightarrow>
      (\<exists>r T1'. rank 4 T1 ([5, 10, 15] ! i) = Inr r
         \<and> while_loop ([5, 10, 15] ! i) i T1 r d = Inr (T1', d + of_nat (r - i))
         \<and> for_loop 4 [5, 10, 15] (take (4 - 1) [3, 7, 15]) 0 (4 - 2) = for_loop 4 [5, 10, 15] T1 d i
         \<and> for_loop 4 [5, 10, 15] T1 d i =
             (case i of 0 \<Rightarrow> Inr (T1', d + of_nat (r - i))
              | Suc k \<Rightarrow> for_loop 4 [5, 10, 15] T1' (d + of_nat (r - i)) k)
         \<and> (i = 0 \<longrightarrow> t64_rnni_distance 4 [3, 7, 15] [5, 10, 15] = Inr (d + of_nat (r - i))))"
    by blast
  with reach_ex12_0 obtain r T1'
    where r: "rank 4 [3, 8, 15] ([5, 10, 15] ! 0) = Inr r"
      and w: "while_loop ([5, 10, 15] ! 0) 0 [3, 8, 15] r 1 = Inr (T1', 1 + of_nat (r - 0))"
      and l: "for_loop 4 [5, 10, 15] (take (4 - 1) [3, 7, 15]) 0 (4 - 2)
               = for_loop 4 [5, 10, 15] [3, 8, 15] 1 0"
             "for_loop 4 [5, 10, 15] [3, 8, 15] 1 0 = Inr (T1', 1 + of_nat (r - 0))"
      and d: "t64_rnni_distance 4 [3, 7, 15] [5, 10, 15] = Inr (1 + of_nat (r - 0))"
    by fastforce
  from r rank_ex12_0 have r2: "r = 2" by simp
  from w while_ex12_0 r2 have "T1' = [5, 7, 15]" by simp
  with r2 l d wf_ex1 wf_ex2 reach_ex12 reach_ex12_0 rank_ex12_0 while_ex12_0
  show ?thesis by simp
qed

text \<open>
  C9. On every pair of well-formed trees with the same number \<open>n\<close> of leaves,
  \<open>t64_rnni_distance\<close> returns a value that is at most \<open>(n - 1)(n - 2) / 2\<close>: for
  the outer rank \<open>i\<close> the inner loop makes at most \<open>n - 2 - i\<close> passes.
\<close>

theorem distance_upper_bound:
  assumes T: "wf_tree n T" and R: "wf_tree n R"
  shows "\<exists>d. t64_rnni_distance n T R = Inr d \<and> unat d \<le> (n - 1) * (n - 2) div 2"
proof -
  note f = wf_facts [OF T R] and wT = wf_treeD [OF T] and wR = wf_treeD [OF R]
  from for_loop_returns [OF f(1,2,3) order_refl f(4), of 0]
  obtain T1' d where d: "for_loop n R T 0 (n - 2) = Inr (T1', d)"
      "2 * unat d \<le> 2 * unat (0 :: u64) + Suc (n - 2) * (2 * (n - 2) - (n - 2))"
    by blast
  have "Suc (n - 2) * (2 * (n - 2) - (n - 2)) = (n - 1) * (n - 2)"
  proof -
    from f(1) have "Suc (n - 2) = n - 1" by simp
    moreover have "2 * (n - 2) - (n - 2) = n - 2" by simp
    ultimately show ?thesis by (simp only:)
  qed
  with d(2) have "2 * unat d \<le> (n - 1) * (n - 2)" by simp
  then have "unat d \<le> (n - 1) * (n - 2) div 2" by linarith
  with d(1) show ?thesis
    using wT wR by (simp add: t64_rnni_distance_def)
qed

theorem distance_upper_bound_witness:
  "wf_tree 4 [3, 7, 15] \<and> wf_tree 4 [5, 10, 15]
   \<and> t64_rnni_distance 4 [3, 7, 15] [5, 10, 15] = Inr 3
   \<and> unat (3 :: u64) \<le> (4 - 1) * (4 - 2) div 2"
  using distance_upper_bound [OF wf_ex1 wf_ex2] wf_ex1 wf_ex2 dist_ex12 by simp

text \<open>
  C3. For every well-formed tree \<open>T\<close> with \<open>n\<close> leaves, \<open>2 \<le> n \<le> 64\<close>,
  \<open>t64_rnni_distance(n, T, T)\<close> returns \<open>0\<close>.
\<close>

theorem self_distance_zero:
  assumes "wf_tree n T"
  shows "t64_rnni_distance n T T = Inr 0"
proof -
  note wf = wf_treeD [OF assms]
  from wf(1) have "n - 2 < n - 1" by simp
  with assms have "for_loop n T T 0 (n - 2) = Inr (T, 0)"
    by (rule for_loop_self)
  with wf show ?thesis
    by (simp add: t64_rnni_distance_def)
qed

theorem self_distance_zero_witness:
  "wf_tree 4 [3, 7, 15] \<and> t64_rnni_distance 4 [3, 7, 15] [3, 7, 15] = Inr 0"
  using self_distance_zero [OF wf_ex1] wf_ex1 by simp

text \<open>
  C4. \<open>rank(n, v, x)\<close> returns \<open>i\<close> exactly when \<open>i\<close> is the smallest index in
  \<open>[0, n-2]\<close> with \<open>(v[i] & x) == x\<close>. In a well-formed tree, for a mask \<open>x\<close> that
  is not empty, the entry found is the least of the entries that contain \<open>x\<close>: every
  other entry that contains \<open>x\<close> has a higher rank and properly contains \<open>v[i]\<close>.
\<close>

theorem rank_smallest_index:
  assumes "2 \<le> n" and "length v = n - 1"
  shows "(rank n v x = Inr i \<longleftrightarrow>
            i \<le> n - 2 \<and> v ! i AND x = x \<and> (\<forall>j<i. v ! j AND x \<noteq> x))
       \<and> (wf_tree n v \<and> x \<noteq> 0 \<and> rank n v x = Inr i \<longrightarrow>
            (\<forall>j \<le> n - 2. j \<noteq> i \<and> v ! j AND x = x \<longrightarrow>
               i < j \<and> v ! i AND v ! j = v ! i \<and> v ! i \<noteq> v ! j))"
proof (intro conjI impI allI)
  show first: "rank n v x = Inr i \<longleftrightarrow>
      i \<le> n - 2 \<and> v ! i AND x = x \<and> (\<forall>j<i. v ! j AND x \<noteq> x)"
    using assms by (intro rank_Inr_iff) simp_all
  fix j
  assume h: "wf_tree n v \<and> x \<noteq> 0 \<and> rank n v x = Inr i" and j: "j \<le> n - 2"
    and other: "j \<noteq> i \<and> v ! j AND x = x"
  from h first have i: "v ! i AND x = x" "\<forall>j<i. v ! j AND x \<noteq> x" by simp_all
  with other show lt: "i < j"
    by (meson nat_neq_iff)
  from j assms(1) have jn: "j < n - 1" by simp
  from h have x: "bits x \<noteq> {}" by (simp add: bits_empty_iff)
  from i(1) other have "bits x \<subseteq> bits (v ! i)" "bits x \<subseteq> bits (v ! j)"
    by (simp_all add: subset_bits_iff')
  with x have "bits (v ! i) \<inter> bits (v ! j) \<noteq> {}" by blast
  with wf_order [of n v i j] h lt jn have strict: "bits (v ! i) \<subset> bits (v ! j)"
    by blast
  then show "v ! i AND v ! j = v ! i"
    by (simp add: subset_bits_iff less_imp_le)
  from strict show "v ! i \<noteq> v ! j" by auto
qed

lemma rank_ex: "rank 4 [3, 7, 15] 4 = Inr 1"
  by code_simp

theorem rank_smallest_index_witness:
  "(2::nat) \<le> 4 \<and> length [3, 7, 15 :: u64] = 4 - 1 \<and> wf_tree 4 [3, 7, 15] \<and> (4 :: u64) \<noteq> 0
   \<and> rank 4 [3, 7, 15] 4 = Inr 1 \<and> [3, 7, 15 :: u64] ! 2 AND 4 = 4
   \<and> [3, 7, 15 :: u64] ! 1 AND 4 = 4 \<and> [3, 7, 15 :: u64] ! 0 AND 4 \<noteq> 4
   \<and> [3, 7, 15 :: u64] ! 1 AND [3, 7, 15] ! 2 = [3, 7, 15] ! 1
   \<and> [3, 7, 15 :: u64] ! 1 \<noteq> [3, 7, 15] ! 2"
  using rank_smallest_index [of 4 "[3, 7, 15]" 4 1] wf_ex1 rank_ex by simp

section \<open>The loop of the generator\<close>

text \<open>
  One pass of the loop takes the entry at \<open>a\<close> out of the active entries, by moving the
  last active entry into its place, and puts the union in the place of the entry at
  \<open>b\<close>: as multisets, the new active entries are the old ones without the two that
  were joined, and with their union.
\<close>

lemma take_Suc_last: "Suc m \<le> length u \<Longrightarrow> take (Suc m) u = take m u @ [u ! m]"
  by (simp add: take_Suc_conv_app_nth)

lemma merge_step_mset:
  assumes j: "Suc m \<le> length u" and a: "a \<le> m" and b: "b < m"
  shows "mset (take m (u[a := u ! m, b := N]))
       = add_mset N (mset (take (Suc m) u) - {#u ! a#} - {#(u[a := u ! m]) ! b#})"
proof -
  let ?xs = "take m u" and ?L = "u ! m"
  have whole: "mset (take (Suc m) u) = add_mset ?L (mset ?xs)"
    using j by (simp add: take_Suc_last)
  have lenxs: "length ?xs = m" using j by simp
  have one: "mset (take m (u[a := ?L])) = mset (take (Suc m) u) - {#u ! a#}"
  proof (cases "a = m")
    case True
    then show ?thesis using whole by simp
  next
    case False
    with a have am: "a < m" by simp
    then have "take m (u[a := ?L]) = ?xs[a := ?L]"
      by (simp add: take_update_swap)
    moreover have "mset (?xs[a := ?L]) = add_mset ?L (mset ?xs - {#?xs ! a#})"
      using am lenxs by (simp add: mset_update)
    moreover have "?xs ! a = u ! a" using am by simp
    moreover have "u ! a \<in># mset ?xs"
      using am lenxs by (metis \<open>?xs ! a = u ! a\<close> nth_mem set_mset_mset)
    ultimately show ?thesis using whole by simp
  qed
  have "take m (u[a := ?L, b := N]) = (take m (u[a := ?L]))[b := N]"
    using b by (simp add: take_update_swap)
  moreover have "length (take m (u[a := ?L])) = m" using j by simp
  moreover have "take m (u[a := ?L]) ! b = (u[a := ?L]) ! b" using b by simp
  ultimately have "mset (take m (u[a := ?L, b := N]))
      = add_mset N (mset (take m (u[a := ?L])) - {#(u[a := ?L]) ! b#})"
    using b by (simp add: mset_update)
  with one show ?thesis by simp
qed

lemma merge_step_partner:
  assumes j: "Suc m \<le> length u" and a: "a \<le> m" and b: "b < m"
    and d: "distinct (take (Suc m) u)"
  shows "(u[a := u ! m]) ! b \<in> set (take (Suc m) u)" "(u[a := u ! m]) ! b \<noteq> u ! a"
proof -
  define b' where "b' = (if b = a then m else b)"
  have eq: "(u[a := u ! m]) ! b = u ! b'"
    using j a b by (simp add: b'_def nth_list_update)
  have b': "b' < Suc m" "b' \<noteq> a"
    using a b by (auto simp: b'_def)
  from b' j show "(u[a := u ! m]) ! b \<in> set (take (Suc m) u)"
    unfolding eq by (metis in_set_conv_nth length_take min.absorb2 nth_take)
  from d b' a j show "(u[a := u ! m]) ! b \<noteq> u ! a"
    unfolding eq
    by (metis (no_types, lifting) le_imp_less_Suc length_take min.absorb2 nth_eq_iff_index_eq nth_take)
qed

lemma merge_step_set:
  assumes j: "Suc m \<le> length u" and a: "a \<le> m" and b: "b < m"
    and d: "distinct (take (Suc m) u)"
  shows "set (take m (u[a := u ! m, b := N]))
       = insert N (set (take (Suc m) u) - {u ! a, (u[a := u ! m]) ! b})"
    and "N \<notin> set (take (Suc m) u) - {u ! a, (u[a := u ! m]) ! b} \<Longrightarrow>
         distinct (take m (u[a := u ! m, b := N]))"
proof -
  let ?A = "u ! a" and ?B = "(u[a := u ! m]) ! b" and ?S = "take (Suc m) u"
  let ?ys = "N # remove1 ?B (remove1 ?A ?S)"
  have m: "mset (take m (u[a := u ! m, b := N])) = mset ?ys"
    using merge_step_mset [OF j a b, of N] by simp
  have sys: "set ?ys = insert N (set ?S - {?A, ?B})"
    using d by auto
  from m have "set (take m (u[a := u ! m, b := N])) = set ?ys"
    by (rule mset_eq_setD)
  with sys show "set (take m (u[a := u ! m, b := N])) = insert N (set ?S - {?A, ?B})"
    by simp
  assume "N \<notin> set ?S - {?A, ?B}"
  with d have "distinct ?ys" by auto
  with m show "distinct (take m (u[a := u ! m, b := N]))"
    by (metis mset_eq_imp_distinct_iff)
qed

lemma two_children_cong:
  "take r v' = take r v \<Longrightarrow> v' ! r = v ! r \<Longrightarrow> two_children n v' r = two_children n v r"
  by (simp add: two_children_def)

lemma union_not_leaf:
  assumes "A \<noteq> 0" "B \<noteq> 0" "A AND B = 0"
  shows "A OR B \<notin> set (leaves n)"
proof
  assume "A OR B \<in> set (leaves n)"
  then obtain k where k: "A OR B = push_bit k 1" by (auto simp: in_leaves_iff)
  have "bits (push_bit k 1 :: u64) \<subseteq> {k}"
    by (auto simp: bits_def bit_exp_iff)
  with k have "bits A \<union> bits B \<subseteq> {k}" by (metis bits_or)
  moreover from assms have "bits A \<noteq> {}" "bits B \<noteq> {}" "bits A \<inter> bits B = {}"
    by (simp_all add: bits_empty_iff disjoint_bits_iff)
  ultimately show False by blast
qed

lemma gen_inv_step:
  assumes inv: "gen_inv n u v (Suc m) i" and i: "i < n - 1" and a: "a \<le> m" and b: "b < m"
  defines "N \<equiv> u ! a OR (u[a := u ! m]) ! b"
  shows "gen_inv n (u[a := u ! m, b := N]) (v[i := N]) m (Suc i)"
proof -
  let ?A = "u ! a" and ?B = "(u[a := u ! m]) ! b"
  let ?S = "set (take (Suc m) u)" and ?u2 = "u[a := u ! m, b := N]" and ?v2 = "v[i := N]"
  from inv have ji: "Suc m + i = n" and n1: "1 < n" and n64: "n \<le> 64" and lu: "length u = n"
    and lv: "n - 1 \<le> length v" and dist: "distinct (take (Suc m) u)" and nz: "0 \<notin> ?S"
    and disj: "\<forall>x \<in> ?S. \<forall>y \<in> ?S. x \<noteq> y \<longrightarrow> x AND y = 0"
    and cover: "(\<Union>x \<in> ?S. bits x) = {..<n}"
    and orig: "?S \<subseteq> set (leaves n @ take i v)"
    and inside: "\<forall>e \<in> set (take i v). \<exists>x \<in> ?S. e AND x = e"
    and tc: "\<forall>r<i. two_children n v r"
    and nl: "\<forall>r<i. v ! r \<notin> set (leaves n)"
    and dv: "distinct (take i v)"
    by (simp_all add: gen_inv_def)
  from ji lu have j: "Suc m \<le> length u" by simp
  have iv: "i < length v" using i lv by simp
  note partner = merge_step_partner [OF j a b dist]
  note newset = merge_step_set [OF j a b dist, of N]
  have A: "?A \<in> ?S"
    using a j by (metis in_set_conv_nth le_imp_less_Suc length_take min.absorb2 nth_take)
  have B: "?B \<in> ?S" "?B \<noteq> ?A" by (rule partner)+
  have AB: "?A AND ?B = 0" using disj A B by auto
  have Anz: "?A \<noteq> 0" and Bnz: "?B \<noteq> 0" using nz A B(1) by auto
  have N: "N = ?A OR ?B" by (simp add: N_def)
  have bN: "bits N = bits ?A \<union> bits ?B" by (simp add: N)
  have Nnz: "N \<noteq> 0"
  proof
    assume "N = 0"
    with bN have "bits ?A = {}" by simp
    with Anz show False by (simp add: bits_empty_iff)
  qed
  have others: "x AND N = 0" if "x \<in> ?S - {?A, ?B}" for x
  proof -
    from that disj A B have "x AND ?A = 0" "x AND ?B = 0" by auto
    then show ?thesis by (simp add: disjoint_bits_iff bN Int_Un_distrib)
  qed
  have Nnew: "N \<notin> ?S - {?A, ?B}"
  proof
    assume "N \<in> ?S - {?A, ?B}"
    from others [OF this] have "N AND N = 0" .
    with Nnz show False by simp
  qed
  have S2: "set (take m ?u2) = insert N (?S - {?A, ?B})"
    by (rule newset(1))
  have D2: "distinct (take m ?u2)"
    using Nnew by (rule newset(2))
  have tv: "take (Suc i) ?v2 = take i v @ [N]"
    using iv by (simp add: take_Suc_conv_app_nth)
  have tv': "take r ?v2 = take r v" if "r \<le> i" for r
    using that by simp
  have Nold: "N \<notin> set (take i v)"
  proof
    assume "N \<in> set (take i v)"
    with inside obtain x where x: "x \<in> ?S" "N AND x = N" by blast
    then have sub: "bits ?A \<subseteq> bits x" "bits ?B \<subseteq> bits x"
      by (simp_all add: subset_bits_iff bN)
    from Anz Bnz have ne: "bits ?A \<noteq> {}" "bits ?B \<noteq> {}"
      by (simp_all add: bits_empty_iff)
    from AB have dAB: "bits ?A \<inter> bits ?B = {}" by (simp add: disjoint_bits_iff)
    show False
    proof (cases "x = ?A")
      case True
      with sub dAB ne show False by blast
    next
      case False
      with disj x(1) A have "x AND ?A = 0" by blast
      then have "bits x \<inter> bits ?A = {}" by (simp add: disjoint_bits_iff)
      with sub ne show False by blast
    qed
  qed
  have "m + Suc i = n" "1 \<le> m" "length ?u2 = n" "n - 1 \<le> length ?v2"
    using ji i lu lv by simp_all
  moreover have "0 \<notin> set (take m ?u2)"
    using nz Nnz by (simp add: S2)
  moreover have "\<forall>x \<in> set (take m ?u2). \<forall>y \<in> set (take m ?u2).
      x \<noteq> y \<longrightarrow> x AND y = 0"
  proof (intro ballI impI)
    fix x y assume "x \<in> set (take m ?u2)" "y \<in> set (take m ?u2)" "x \<noteq> y"
    then consider "x = N" "y \<in> ?S - {?A, ?B}" | "y = N" "x \<in> ?S - {?A, ?B}"
      | "x \<in> ?S" "y \<in> ?S"
      unfolding S2 by auto
    then show "x AND y = 0"
    proof cases
      case 1
      with others [of y] show ?thesis by (simp add: and.commute)
    next
      case 2
      with others [of x] show ?thesis by simp
    next
      case 3
      with disj \<open>x \<noteq> y\<close> show ?thesis by blast
    qed
  qed
  moreover have "(\<Union>x \<in> set (take m ?u2). bits x) = {..<n}"
  proof -
    have "(\<Union>x \<in> insert N (?S - {?A, ?B}). bits x) = (\<Union>x \<in> ?S. bits x)"
      using A B(1) bN by blast
    with cover show ?thesis by (simp only: S2)
  qed
  moreover have "set (take m ?u2) \<subseteq> set (leaves n @ take (Suc i) ?v2)"
    using orig by (auto simp: S2 tv)
  moreover have "\<forall>e \<in> set (take (Suc i) ?v2). \<exists>x \<in> set (take m ?u2). e AND x = e"
  proof
    fix e assume "e \<in> set (take (Suc i) ?v2)"
    then consider "e = N" | "e \<in> set (take i v)" by (auto simp: tv)
    then show "\<exists>x \<in> set (take m ?u2). e AND x = e"
    proof cases
      case 1
      then show ?thesis by (auto simp: S2)
    next
      case 2
      with inside obtain x where x: "x \<in> ?S" "e AND x = e" by blast
      show ?thesis
      proof (cases "x = ?A \<or> x = ?B")
        case True
        with x(2) have "bits e \<subseteq> bits N" by (auto simp: subset_bits_iff bN)
        then have "e AND N = e" by (simp add: subset_bits_iff)
        then show ?thesis by (auto simp: S2)
      next
        case False
        with x show ?thesis by (auto simp: S2)
      qed
    qed
  qed
  moreover have "\<forall>r<Suc i. two_children n ?v2 r"
  proof (intro allI impI)
    fix r assume "r < Suc i"
    then consider "r < i" | "r = i" by linarith
    then show "two_children n ?v2 r"
    proof cases
      case 1
      then have "two_children n ?v2 r = two_children n v r"
        by (intro two_children_cong) simp_all
      with tc 1 show ?thesis by simp
    next
      case 2
      have "?A \<in> set (leaves n @ take i ?v2)" "?B \<in> set (leaves n @ take i ?v2)"
        using orig A B(1) by auto
      moreover have "?A OR ?B = ?v2 ! i" using iv by (simp add: N)
      ultimately show ?thesis
        unfolding 2 two_children_def using AB by blast
    qed
  qed
  moreover have "\<forall>r<Suc i. ?v2 ! r \<notin> set (leaves n)"
  proof (intro allI impI)
    fix r assume "r < Suc i"
    then consider "r < i" | "r = i" by linarith
    then show "?v2 ! r \<notin> set (leaves n)"
    proof cases
      case 1
      with nl show ?thesis by simp
    next
      case 2
      with iv union_not_leaf [OF Anz Bnz AB, of n] show ?thesis by (simp add: N)
    qed
  qed
  moreover have "distinct (take (Suc i) ?v2)"
    using dv Nold by (simp add: tv)
  moreover have "?v2 ! (Suc i - 1) \<in> set (take m ?u2)"
    using iv by (simp add: S2)
  ultimately show ?thesis
    using D2 n1 n64 unfolding gen_inv_def by blast
qed

lemma gen_inv_initial:
  assumes "1 < n" "n \<le> 64" "n - 1 \<le> length v"
  shows "gen_inv n (map (\<lambda>i. push_bit i 1) [0..<n]) v n 0"
proof -
  let ?u = "map (\<lambda>i. push_bit i 1 :: u64) [0..<n]"
  have tk: "take n ?u = ?u" by simp
  have b: "bits x = {k}" if "k < n" "x = push_bit k 1" for x :: u64 and k
    using that assms(2) by (simp add: bits_pow2)
  have mem: "x \<in> set ?u \<longleftrightarrow> (\<exists>k<n. x = push_bit k 1)" for x
    by auto
  have "inj_on (\<lambda>i. push_bit i 1 :: u64) (set [0..<n])"
  proof (rule inj_onI)
    fix k l assume "k \<in> set [0..<n]" "l \<in> set [0..<n]"
      and "(push_bit k 1 :: u64) = push_bit l 1"
    then have "k < n" "l < n" and "bits (push_bit k 1 :: u64) = bits (push_bit l 1 :: u64)"
      by (simp_all only: set_upt atLeastLessThan_iff)
    with b [of k "push_bit k 1"] b [of l "push_bit l 1"] have "{k} = {l}"
      by (simp only:)
    then show "k = l" by simp
  qed
  then have d: "distinct ?u" by (simp add: distinct_map)
  have nz: "0 \<notin> set ?u"
  proof
    assume "0 \<in> set ?u"
    then obtain k where "k < n" "(0 :: u64) = push_bit k 1" unfolding mem by blast
    with b [of k 0] show False by simp
  qed
  have dis: "\<forall>x \<in> set ?u. \<forall>y \<in> set ?u. x \<noteq> y \<longrightarrow> x AND y = 0"
  proof (intro ballI impI)
    fix x y assume "x \<in> set ?u" "y \<in> set ?u" "x \<noteq> y"
    then obtain k l where "k < n" "x = push_bit k 1" "l < n" "y = push_bit l 1"
      unfolding mem by blast
    with \<open>x \<noteq> y\<close> b [of k x] b [of l y] show "x AND y = 0"
      by (auto simp: disjoint_bits_iff)
  qed
  have cover: "(\<Union>x \<in> set ?u. bits x) = {..<n}"
  proof (intro set_eqI iffI)
    fix p assume "p \<in> (\<Union>x \<in> set ?u. bits x)"
    then obtain x where "x \<in> set ?u" "p \<in> bits x" by blast
    then obtain k where "k < n" "x = push_bit k 1" unfolding mem by blast
    with b [of k x] \<open>p \<in> bits x\<close> show "p \<in> {..<n}" by simp
  next
    fix p assume "p \<in> {..<n}"
    then have "p < n" by simp
    with b [of p "push_bit p 1"] have "push_bit p 1 \<in> set ?u" "p \<in> bits (push_bit p 1 :: u64)"
      unfolding mem by blast+
    then show "p \<in> (\<Union>x \<in> set ?u. bits x)" by blast
  qed
  have sub: "set ?u \<subseteq> set (leaves n @ take 0 v)"
    by (simp add: leaves_def)
  show ?thesis
    unfolding gen_inv_def tk using assms d nz dis cover sub by simp
qed

lemma two_children_take:
  "r < m \<Longrightarrow> m \<le> length v \<Longrightarrow> two_children n (take m v) r = two_children n v r"
  by (simp add: two_children_def min_def)

lemma gen_inv_final:
  assumes "gen_inv n u v 1 (n - 1)"
  shows "wf_tree n (take (n - 1) v)"
proof -
  from assms have n: "1 < n" "n \<le> 64" and lu: "length u = n" and lv: "n - 1 \<le> length v"
    and cover: "(\<Union>x \<in> set (take 1 u). bits x) = {..<n}"
    and tc: "\<forall>r<n - 1. two_children n v r"
    and nl: "\<forall>r<n - 1. v ! r \<notin> set (leaves n)"
    and dv: "distinct (take (n - 1) v)"
    and last: "0 < n - 1 \<longrightarrow> v ! (n - 1 - 1) \<in> set (take 1 u)"
    by (simp_all add: gen_inv_def)
  from lu n have t1: "take 1 u = [u ! 0]"
    by (cases u) simp_all
  from cover have "bits (u ! 0) = {..<n}"
    unfolding t1 by simp
  then have "bits (u ! 0) = bits (mask n :: u64)"
    using n(2) by (simp add: bits_mask)
  then have "u ! 0 = mask n" by (simp add: bits_eq_iff)
  moreover from last n have "v ! (n - 1 - 1) \<in> set (take 1 u)" by simp
  ultimately have "v ! (n - 1 - 1) = mask n"
    unfolding t1 by simp
  then have root: "v ! (n - 2) = mask n"
    by (simp add: numeral_2_eq_2)
  have "take (n - 1) v ! (n - 2) = mask n"
    using root n by simp
  moreover have "\<forall>r \<in> set [0..<n - 1]. two_children n (take (n - 1) v) r"
    using tc lv by (simp add: two_children_take)
  moreover have "\<forall>r \<in> set [0..<n - 1]. take (n - 1) v ! r \<notin> set (leaves n)"
    using nl by simp
  ultimately show ?thesis
    unfolding wf_tree_def using n lv dv by simp
qed

lemma random_loop_valid:
  assumes br: "\<forall>g b. 0 < b \<longrightarrow> fst (br g b) < b"
  shows "n - 1 - i = k \<Longrightarrow> gen_inv n u v j i \<Longrightarrow>
    \<exists>v' g'. random_loop br n rng u v j i = Inr (v', g') \<and> length v' = length v
       \<and> wf_tree n (take (n - 1) v')"
proof (induction k arbitrary: i j u v rng)
  case 0
  from "0.prems"(2) have "j + i = n" "1 \<le> j" "1 < n" by (simp_all add: gen_inv_def)
  with "0.prems"(1) have ij: "i = n - 1" "j = 1" by simp_all
  with "0.prems"(2) have "wf_tree n (take (n - 1) v)"
    by (intro gen_inv_final [of n u]) simp
  moreover have "random_loop br n rng u v j i = Inr (v, rng)"
    using ij by (subst random_loop.simps) simp
  ultimately show ?case by simp
next
  case (Suc k)
  from Suc.prems(2) have ji: "j + i = n" and lu: "length u = n" and lv: "n - 1 \<le> length v"
    by (simp_all add: gen_inv_def)
  from Suc.prems(1) have i: "i < n - 1" by simp
  with ji obtain m where j: "j = Suc m" "0 < m"
    by (cases j) auto
  obtain a rng1 where a: "br rng j = (a, rng1)" by (cases "br rng j")
  obtain b rng2 where b: "br rng1 m = (b, rng2)" by (cases "br rng1 m")
  from br [rule_format, of j rng] a j have aj: "a \<le> m" by simp
  from br [rule_format, of m rng1] b j have bm: "b < m" by simp
  define N where "N = u ! a OR (u[a := u ! m]) ! b"
  have inv': "gen_inv n (u[a := u ! m, b := N]) (v[i := N]) m (Suc i)"
    unfolding N_def using Suc.prems(2) [unfolded j] i aj bm by (rule gen_inv_step)
  from Suc.prems(1) have "n - 1 - Suc i = k" by simp
  from Suc.IH [OF this inv', of rng2]
  obtain v' g' where rest: "random_loop br n rng2 (u[a := u ! m, b := N]) (v[i := N]) m (Suc i)
      = Inr (v', g')" "length v' = length (v[i := N])" "wf_tree n (take (n - 1) v')"
    by blast
  have bounds: "a < length u" "m < length u" "b < length u" "i < length v"
    using aj bm ji j lu lv i by simp_all
  have "random_loop br n rng u v j i = Inr (v', g')"
    using i a b j bounds rest(1) unfolding N_def
    by (subst random_loop.simps) (simp add: size_sub_simp Let_def)
  with rest(2,3) show ?case by simp
qed

section \<open>The claim about the generator\<close>

text \<open>
  C2. For every \<open>n\<close> with \<open>2 \<le> n \<le> 64\<close>, every state of the random number generator
  and every output array with room for \<open>n - 1\<close> entries, \<open>t64_random\<close> returns, and
  the entries \<open>v[0..n-2]\<close> it has written meet the four invariants of a ranked tree:
  the entry at rank \<open>n - 2\<close> has the \<open>n\<close> low bits set, every entry is the union of
  two disjoint masks that are leaves or earlier entries, no entry is a leaf, and no two
  ranks carry the same mask. The generator of random numbers is any function that draws
  below its bound.
\<close>

theorem t64_random_valid:
  assumes "1 < n" and "n \<le> 64" and "n - 1 \<le> length v"
    and "\<forall>g b. 0 < b \<longrightarrow> fst (br g b) < b"
  shows "\<exists>v' g'. t64_random br rng n v = Inr (v', g') \<and> length v' = length v
           \<and> wf_tree n (take (n - 1) v')"
proof -
  have "gen_inv n (map (\<lambda>i. push_bit i 1) [0..<n]) v n 0"
    using assms(1,2,3) by (rule gen_inv_initial)
  from random_loop_valid [OF assms(4) refl this, of rng]
  show ?thesis
    using assms(1,2) by (simp add: t64_random_def)
qed

lemma random_ex: "t64_random cyc 3 4 [0, 0, 0] = Inr ([10, 5, 15], 9)"
  by code_simp

lemma cyc_below: "\<forall>g b. 0 < b \<longrightarrow> fst (cyc g b) < b"
  by (simp add: cyc_def)

theorem t64_random_valid_witness:
  "(1::nat) < 4 \<and> (4::nat) \<le> 64 \<and> 4 - 1 \<le> length [0, 0, 0 :: u64]
   \<and> t64_random cyc 3 4 [0, 0, 0] = Inr ([10, 5, 15], 9)
   \<and> wf_tree 4 (take (4 - 1) [10, 5, 15])"
  using t64_random_valid [of 4 "[0, 0, 0]" cyc 3] cyc_below random_ex by simp

section \<open>Where the code departs from the specification\<close>

text \<open>
  C1 (a defect of the code). In the nested case, when \<open>u = T1[r-1]\<close> has not exactly
  two leaves, the claim has \<open>x\<close> found strictly below rank \<open>r - 1\<close>, a proper part of
  \<open>u\<close>. The scan of the code starts at \<open>j = r - 1\<close>, where \<open>T1[j]\<close> is \<open>u\<close>
  itself and passes the test \<open>(u & x) == x\<close>: it always stops there, with \<open>x = u\<close> read
  at rank \<open>r - 1\<close>, so that \<open>y = u - x\<close> is empty and \<open>x + w\<close> is \<open>v\<close>. The move
  then writes \<open>v\<close> or \<open>v - u\<close> to rank \<open>r - 1\<close>.
\<close>

theorem scan_selects_u_itself:
  assumes "popcount64 (T1 ! (r - 1)) \<noteq> 2"
  shows "find_x T1 r = Inr (Some (r - 1), T1 ! (r - 1))
       \<and> (T1 ! r AND T1 ! (r - 1) \<noteq> 0 \<longrightarrow>
            move Ri T1 r = Inr (T1[r - 1 :=
              (if Ri AND T1 ! r = T1 ! r then T1 ! r else T1 ! r - T1 ! (r - 1))]))"
proof -
  have x: "find_x T1 r = Inr (Some (r - 1), T1 ! (r - 1))"
    using assms by (simp add: find_x_def Let_def descend_self del: One_nat_def)
  have "move Ri T1 r = Inr (T1[r - 1 :=
      (if Ri AND T1 ! r = T1 ! r then T1 ! r else T1 ! r - T1 ! (r - 1))])"
    if "T1 ! r AND T1 ! (r - 1) \<noteq> 0"
    using that x by (simp add: move_def Let_def del: One_nat_def)
  with x show ?thesis by blast
qed

lemma popcount_ex: "popcount64 ([3, 7, 15] ! (2 - 1)) = 3"
  by code_simp

lemma rank_ex12: "rank 4 [3, 7, 15] ([5, 10, 15] ! 1) = Inr 2"
  by code_simp

theorem scan_selects_u_itself_witness:
  "wf_tree 4 [3, 7, 15] \<and> wf_tree 4 [5, 10, 15]
   \<and> for_reach 4 [5, 10, 15] (take (4 - 1) [3, 7, 15], 0, 4 - 2) ([3, 7, 15], 0, 1)
   \<and> rank 4 [3, 7, 15] ([5, 10, 15] ! 1) = Inr 2
   \<and> [3, 7, 15 :: u64] ! 2 AND [3, 7, 15] ! (2 - 1) \<noteq> 0
   \<and> popcount64 ([3, 7, 15] ! (2 - 1)) = 3
   \<and> find_x [3, 7, 15] 2 = Inr (Some 1, 7)
   \<and> move 10 [3, 7, 15] 2 = Inr [3, 8, 15]"
  using scan_selects_u_itself [of "[3, 7, 15]" 2 10] popcount_ex wf_ex1 wf_ex2 reach_ex12
    rank_ex12
  by simp

text \<open>
  C5 (a defect of the code). The claim has the distance symmetric. On the well-formed
  trees \<open>T = [3, 7, 15]\<close> and \<open>R = [5, 10, 15]\<close> with four leaves the code returns
  \<open>3\<close> from \<open>T\<close> to \<open>R\<close> and \<open>2\<close> from \<open>R\<close> to \<open>T\<close>.
\<close>

theorem distance_not_symmetric:
  "t64_rnni_distance 4 [3, 7, 15] [5, 10, 15] = Inr 3
   \<and> t64_rnni_distance 4 [5, 10, 15] [3, 7, 15] = Inr 2"
  using dist_ex12 dist_ex21 by (rule conjI)

end
